theory Spec2Isabelle
  imports Main "HOL-Library.Multiset"
begin

section \<open>File discovery (src/utils.ts, getConfigFormat .. findConfigFiles)\<close>

text \<open>
  \<^verbatim>\<open>ConfigFormat = 'ts' | 'js' | 'json' | 'json5' | 'yaml' | 'yml' | 'env'\<close> (src/types.ts).
\<close>

datatype ConfigFormat = TS | JS | JSON | JSON5 | YAML | YML | ENV

fun format_name :: "ConfigFormat \<Rightarrow> string" where
  "format_name TS = ''ts''"
| "format_name JS = ''js''"
| "format_name JSON = ''json''"
| "format_name JSON5 = ''json5''"
| "format_name YAML = ''yaml''"
| "format_name YML = ''yml''"
| "format_name ENV = ''env''"

record ConfigFileInfo =
  path :: string
  format :: ConfigFormat
  ext :: string
  env :: "string option"
  isBase :: bool
  mtime :: nat

text \<open>
  The file system is what \<^verbatim>\<open>existsSync\<close> and \<^verbatim>\<open>statSync\<close> read: a path that exists is
  mapped to its modification time.
\<close>

type_synonym filesystem = "string \<Rightarrow> nat option"

text \<open>
  Node's \<^verbatim>\<open>path\<close> module, for a POSIX directory and a file name without separators:
  \<^verbatim>\<open>resolve(dir, file)\<close> joins them, \<^verbatim>\<open>extname\<close> is the part of the last path segment
  from its last dot on (empty when there is no dot, or only a leading one).
\<close>

definition resolve :: "string \<Rightarrow> string \<Rightarrow> string" where
  "resolve dir file = dir @ ''/'' @ file"

definition last_segment :: "string \<Rightarrow> string" where
  "last_segment p = rev (takeWhile (\<lambda>c. c \<noteq> CHR ''/'') (rev p))"

definition extname :: "string \<Rightarrow> string" where
  "extname p =
     (let b = last_segment p;
          e = rev (takeWhile (\<lambda>c. c \<noteq> CHR ''.'') (rev b))
      in if CHR ''.'' \<notin> set b then ''''
         else if Suc (length e) = length b then ''''
         else CHR ''.'' # e)"

definition lower_char :: "char \<Rightarrow> char" where
  "lower_char c =
     (let n = (of_char c :: nat)
      in if 65 \<le> n \<and> n \<le> 90 then char_of (n + 32) else c)"

definition toLowerCase :: "string \<Rightarrow> string" where
  "toLowerCase s = map lower_char s"

text \<open>\<^verbatim>\<open>getConfigFormat\<close>: the extension without its dot, lower-cased, then the switch.\<close>

definition getConfigFormat :: "string \<Rightarrow> ConfigFormat option" where
  "getConfigFormat filePath =
     (let e = toLowerCase (drop 1 (extname filePath))
      in if e = ''ts'' then Some TS
         else if e = ''js'' \<or> e = ''mjs'' \<or> e = ''cjs'' then Some JS
         else if e = ''json'' then Some JSON
         else if e = ''json5'' then Some JSON5
         else if e = ''yaml'' \<or> e = ''yml'' then Some YAML
         else if e = ''env'' then Some ENV
         else None)"

definition default_extensions :: "ConfigFormat list" where
  "default_extensions = [TS, JS, JSON, JSON5, YAML, YML, ENV]"

text \<open>A string is truthy in JavaScript when it is defined and not empty.\<close>

definition truthy_str :: "string option \<Rightarrow> bool" where
  "truthy_str s = (case s of None \<Rightarrow> False | Some x \<Rightarrow> x \<noteq> '''')"

definition generateConfigPaths ::
  "string \<Rightarrow> string \<Rightarrow> string option \<Rightarrow> ConfigFormat list option \<Rightarrow> string list" where
  "generateConfigPaths configDir name env_opt extensions =
     map (\<lambda>e.
        if truthy_str env_opt
        then resolve configDir (name @ ''.config.'' @ the env_opt @ ''.'' @ format_name e)
        else resolve configDir (name @ ''.config.'' @ format_name e))
       (case extensions of None \<Rightarrow> default_extensions | Some es \<Rightarrow> es)"

text \<open>
  One pass of the two \<^verbatim>\<open>for (const path of ...)\<close> loops of \<^verbatim>\<open>findConfigFiles\<close>: a path
  is kept when it exists and its format is known.
\<close>

fun collect_files :: "filesystem \<Rightarrow> string option \<Rightarrow> bool \<Rightarrow> string list \<Rightarrow> ConfigFileInfo list" where
  "collect_files fs e b [] = []"
| "collect_files fs e b (p # ps) =
     (case fs p of
        None \<Rightarrow> collect_files fs e b ps
      | Some t \<Rightarrow>
          (case getConfigFormat p of
             None \<Rightarrow> collect_files fs e b ps
           | Some f \<Rightarrow>
               \<lparr>path = p, format = f, ext = extname p, env = e, isBase = b, mtime = t\<rparr>
                 # collect_files fs e b ps))"

text \<open>The array \<^verbatim>\<open>files\<close> as it stands just before \<^verbatim>\<open>files.sort\<close>.\<close>

definition discovered ::
  "filesystem \<Rightarrow> string \<Rightarrow> string \<Rightarrow> string option \<Rightarrow> ConfigFormat list option
     \<Rightarrow> ConfigFileInfo list" where
  "discovered fs name configDir env_opt extensions =
     collect_files fs None True (generateConfigPaths configDir name None extensions)
     @ (if truthy_str env_opt
        then collect_files fs env_opt False (generateConfigPaths configDir name env_opt extensions)
        else [])"

definition priorityOrder :: "ConfigFormat list" where
  "priorityOrder = [ENV, YML, YAML, JSON5, JSON, JS, TS]"

text \<open>\<^verbatim>\<open>Array.prototype.indexOf\<close>: the first index of the element, or -1.\<close>

fun indexOf :: "'a list \<Rightarrow> 'a \<Rightarrow> int" where
  "indexOf [] x = -1"
| "indexOf (y # ys) x =
     (if y = x then 0 else (let i = indexOf ys x in if i < 0 then -1 else i + 1))"

definition priority :: "ConfigFileInfo \<Rightarrow> int" where
  "priority f = indexOf priorityOrder (format f)"

text \<open>
  \<^verbatim>\<open>files.sort((a, b) => indexA - indexB)\<close>: \<^verbatim>\<open>Array.prototype.sort\<close> is a stable sort,
  here by the index of the format in \<^verbatim>\<open>priorityOrder\<close>; \<^const>\<open>sort_key\<close> is the stable
  insertion sort of the list library.
\<close>

definition findConfigFiles ::
  "filesystem \<Rightarrow> string \<Rightarrow> string \<Rightarrow> string option \<Rightarrow> ConfigFormat list option
     \<Rightarrow> ConfigFileInfo list" where
  "findConfigFiles fs name configDir env_opt extensions =
     sort_key priority (discovered fs name configDir env_opt extensions)"

text \<open>
  What "every base file before every environment-specific file" says of a sequence: it is
  its base files followed by its other files.
\<close>

definition base_files_first :: "ConfigFileInfo list \<Rightarrow> bool" where
  "base_files_first fs = (fs = filter isBase fs @ filter (\<lambda>f. \<not> isBase f) fs)"

text \<open>A directory holding a TypeScript base file and a JSON file for \<^verbatim>\<open>prod\<close>.\<close>

definition example_fs :: filesystem where
  "example_fs p =
     (if p = ''/cfg/app.config.ts'' then Some 1
      else if p = ''/cfg/app.config.prod.json'' then Some 2
      else None)"

text \<open>A directory holding the base file in both YAML spellings.\<close>

definition yaml_fs :: filesystem where
  "yaml_fs p =
     (if p = ''/cfg/app.config.yaml'' then Some 1
      else if p = ''/cfg/app.config.yml'' then Some 2
      else None)"

section \<open>JavaScript values and the object store\<close>

text \<open>
  A JavaScript value is a primitive, a reference to an object or an array in the store, or
  one of the objects every program starts with: \<^verbatim>\<open>Object.prototype\<close> itself
  (\<open>VObjectPrototype\<close>) and the functions that are its properties (\<open>VNativeFun k\<close> is
  \<^verbatim>\<open>Object.prototype[k]\<close>; for \<^verbatim>\<open>constructor\<close> that is the function \<^verbatim>\<open>Object\<close>). Two
  references are the same value exactly when they are the same address, which is what
  \<^verbatim>\<open>===\<close> and \<^verbatim>\<open>Set\<close> compare. Numbers are carried as integers: the functions below only
  compare and copy them.
\<close>

datatype val = VUndefined | VNull | VBool bool | VNum int | VStr string | VRef nat
  | VObjectPrototype | VNativeFun string

text \<open>
  An object of the store is its own enumerable properties in enumeration order; an array is
  its elements. The objects of the store are plain objects, as a parsed document, an object
  literal and the result of a spread are: their prototype is \<^verbatim>\<open>Object.prototype\<close>.
\<close>

datatype cell = CObj "(string \<times> val) list" | CArr "val list"

type_synonym heap = "cell list"

text \<open>
  \<open>Unmodelled\<close> stands for a call into the runtime whose outcome is not given here (see
  \<open>native_call\<close> below).
\<close>

datatype error = StackOverflow | TypeError string | Thrown string | NotADocument
  | Unmodelled string

definition alloc :: "heap \<Rightarrow> cell \<Rightarrow> heap \<times> nat" where
  "alloc h c = (h @ [c], length h)"

text \<open>An address beyond the store reads as an empty object.\<close>

definition cell_at :: "heap \<Rightarrow> nat \<Rightarrow> cell" where
  "cell_at h a = (if a < length h then h ! a else CObj [])"

text \<open>
  The own enumerable properties of an object, which is what a spread copies and
  \<^verbatim>\<open>for ... in\<close> enumerates on a plain object: \<^verbatim>\<open>Object.prototype\<close> has none (its properties
  are not enumerable).
\<close>

definition fields_of :: "heap \<Rightarrow> val \<Rightarrow> (string \<times> val) list option" where
  "fields_of h v =
     (case v of
        VRef a \<Rightarrow> (case cell_at h a of CObj kvs \<Rightarrow> Some kvs | CArr xs \<Rightarrow> None)
      | VObjectPrototype \<Rightarrow> Some []
      | _ \<Rightarrow> None)"

text \<open>
  The properties of \<^verbatim>\<open>Object.prototype\<close>: eleven functions and the accessor \<^verbatim>\<open>__proto__\<close>.
\<close>

definition object_prototype_methods :: "string list" where
  "object_prototype_methods =
     [''constructor'', ''__defineGetter__'', ''__defineSetter__'', ''hasOwnProperty'',
      ''__lookupGetter__'', ''__lookupSetter__'', ''isPrototypeOf'', ''propertyIsEnumerable'',
      ''toString'', ''valueOf'', ''toLocaleString'']"

text \<open>
  What \<^verbatim>\<open>obj[key]\<close> finds on \<^verbatim>\<open>Object.prototype\<close> when a plain object \<^verbatim>\<open>obj\<close> has no own
  property \<^verbatim>\<open>key\<close>: the function of that name, for \<^verbatim>\<open>__proto__\<close> the prototype of \<^verbatim>\<open>obj\<close>
  (the getter returns it), and \<^verbatim>\<open>undefined\<close> for any other key.
\<close>

definition inherited :: "string \<Rightarrow> val" where
  "inherited k =
     (if k = ''__proto__'' then VObjectPrototype
      else if k \<in> set object_prototype_methods then VNativeFun k
      else VUndefined)"

text \<open>
  \<^verbatim>\<open>obj[key]\<close> on the properties of a plain object: the own property if there is one, else
  what is inherited.
\<close>

definition lookup :: "(string \<times> val) list \<Rightarrow> string \<Rightarrow> val" where
  "lookup kvs k = (case map_of kvs k of None \<Rightarrow> inherited k | Some v \<Rightarrow> v)"

text \<open>
  \<^verbatim>\<open>obj[key] = v\<close> on the properties of an object: an existing key keeps its place, a new
  key goes last.
\<close>

fun set_field :: "(string \<times> val) list \<Rightarrow> string \<Rightarrow> val \<Rightarrow> (string \<times> val) list" where
  "set_field [] k v = [(k, v)]"
| "set_field ((k', v') # kvs) k v =
     (if k' = k then (k, v) # kvs else (k', v') # set_field kvs k v)"

text \<open>
  \<^verbatim>\<open>v[key]\<close>. Read on \<^verbatim>\<open>Object.prototype\<close> itself, \<^verbatim>\<open>__proto__\<close> is its prototype, \<^verbatim>\<open>null\<close>.
  (The functions below read a property by key from documents only, never from an array, a
  function or a primitive; those reads are \<^verbatim>\<open>undefined\<close> here.)
\<close>

definition get_prop :: "heap \<Rightarrow> val \<Rightarrow> string \<Rightarrow> val" where
  "get_prop h v k =
     (if v = VObjectPrototype then (if k = ''__proto__'' then VNull else inherited k)
      else (case fields_of h v of None \<Rightarrow> VUndefined | Some kvs \<Rightarrow> lookup kvs k))"

text \<open>
  The own property \<open>k\<close> of an object, \<^verbatim>\<open>undefined\<close> when it has none: what
  \<^verbatim>\<open>Object.hasOwn(v, k) ? v[k] : undefined\<close> evaluates to.
\<close>

definition own_prop :: "heap \<Rightarrow> val \<Rightarrow> string \<Rightarrow> val" where
  "own_prop h v k =
     (case fields_of h v of
        None \<Rightarrow> VUndefined
      | Some kvs \<Rightarrow> (case map_of kvs k of None \<Rightarrow> VUndefined | Some x \<Rightarrow> x))"

text \<open>
  \<^verbatim>\<open>obj[key] = v\<close> on an object of the store: the own property is set or added. The one key
  for which an assignment to a plain object is not that is \<^verbatim>\<open>__proto__\<close>: on an object that has
  no own property of that name, JavaScript runs the inherited setter, which replaces the
  prototype of the object by \<open>v\<close> when \<open>v\<close> is an object or \<^verbatim>\<open>null\<close>. The store has no
  prototype to replace and keeps \<open>v\<close> under the key, so that \<^verbatim>\<open>obj.__proto__\<close> reads back an
  object that was assigned. The statements below that read a result after such an assignment
  could have happened are made for documents without that key.
\<close>

definition put_prop :: "heap \<Rightarrow> nat \<Rightarrow> string \<Rightarrow> val \<Rightarrow> heap" where
  "put_prop h r k v =
     (case cell_at h r of
        CObj kvs \<Rightarrow> h[r := CObj (set_field kvs k v)]
      | CArr xs \<Rightarrow> h)"

definition isArray :: "heap \<Rightarrow> val \<Rightarrow> bool" where
  "isArray h v =
     (case v of
        VRef a \<Rightarrow> (case cell_at h a of CArr xs \<Rightarrow> True | CObj kvs \<Rightarrow> False)
      | _ \<Rightarrow> False)"

definition elems :: "heap \<Rightarrow> val \<Rightarrow> val list" where
  "elems h v =
     (case v of
        VRef a \<Rightarrow> (case cell_at h a of CArr xs \<Rightarrow> xs | CObj kvs \<Rightarrow> [])
      | _ \<Rightarrow> [])"

fun typeof :: "val \<Rightarrow> string" where
  "typeof VUndefined = ''undefined''"
| "typeof VNull = ''object''"
| "typeof (VBool b) = ''boolean''"
| "typeof (VNum n) = ''number''"
| "typeof (VStr s) = ''string''"
| "typeof (VRef a) = ''object''"
| "typeof VObjectPrototype = ''object''"
| "typeof (VNativeFun f) = ''function''"

text \<open>
  \<^verbatim>\<open>[...new Set(xs)]\<close>: a \<^verbatim>\<open>Set\<close> keeps the first occurrence of every value, in insertion
  order.
\<close>

definition set_add :: "val list \<Rightarrow> val \<Rightarrow> val list" where
  "set_add acc x = (if x \<in> set acc then acc else acc @ [x])"

definition new_Set :: "val list \<Rightarrow> val list" where
  "new_Set xs = foldl set_add [] xs"

section \<open>The merge engine (src/utils.ts, deepMerge)\<close>

datatype MergeStrategy = Deep | Shallow | Replace | Append | Prepend

datatype ArrayMergeStrategy = ArrReplace | ArrConcat | ArrUnique

text \<open>
  A custom merger reads the store and its two arguments; it returns the objects it creates
  (placed at the end of the store, in order) and its result, or it throws. It does not write
  to an object that exists already. The field \<open>customMergers\<close> of the options gives, for a
  key, what \<^verbatim>\<open>customMergers[key]\<close> evaluates to when that is truthy, whether the property is
  the object's own or inherited.
\<close>

type_synonym merger = "heap \<Rightarrow> val \<Rightarrow> val \<Rightarrow> error + (cell list \<times> val)"

record MergeOptions =
  strategy :: MergeStrategy
  arrayMergeStrategy :: ArrayMergeStrategy
  customMergers :: "string \<Rightarrow> merger option"
  skipKeys :: "string list"
  onlyKeys :: "string list option"

text \<open>
  The decimal digits of a number, for the index keys \<^verbatim>\<open>'0'\<close>, \<^verbatim>\<open>'1'\<close>, ... of a string object.
\<close>

function dec :: "nat \<Rightarrow> string" where
  "dec n = (if n < 10 then [char_of (48 + n)] else dec (n div 10) @ [char_of (48 + n mod 10)])"
  by pat_completeness auto

termination
  by (relation "measure id") auto

declare dec.simps [simp del]

text \<open>
  \<^verbatim>\<open>Object(value)\<close>: an object is returned as it is, \<^verbatim>\<open>null\<close> and \<^verbatim>\<open>undefined\<close> give a new
  empty object, a primitive gives a new wrapper object. A wrapper object is carried by its
  own enumerable properties: none for a number or a boolean, the characters under their
  indices for a string.
\<close>

definition to_object :: "heap \<Rightarrow> val \<Rightarrow> cell list \<times> val" where
  "to_object h v =
     (case v of
        VUndefined \<Rightarrow> ([CObj []], VRef (length h))
      | VNull \<Rightarrow> ([CObj []], VRef (length h))
      | VBool b \<Rightarrow> ([CObj []], VRef (length h))
      | VNum n \<Rightarrow> ([CObj []], VRef (length h))
      | VStr s \<Rightarrow> ([CObj (map (\<lambda>(i, c). (dec i, VStr [c])) (enumerate 0 s))], VRef (length h))
      | _ \<Rightarrow> ([], v))"

text \<open>
  Whether \<^verbatim>\<open>ToPropertyKey(v)\<close> is the string \<^verbatim>\<open>'__proto__'\<close>. A primitive converts to its
  own text, a function to its source text, an object without a \<^verbatim>\<open>toString\<close> of its own to
  \<^verbatim>\<open>'[object Object]'\<close>. The conversion of an array or of an object that has its own
  \<^verbatim>\<open>toString\<close> runs through \<^verbatim>\<open>join\<close> or through that property and is not given here.
\<close>

definition key_is_proto :: "heap \<Rightarrow> val \<Rightarrow> error + bool" where
  "key_is_proto h v =
     (case v of
        VStr s \<Rightarrow> Inr (s = ''__proto__'')
      | VRef a \<Rightarrow>
          (case cell_at h a of
             CObj kvs \<Rightarrow>
               (if map_of kvs ''toString'' = None then Inr False else Inl (Unmodelled ''ToPrimitive''))
           | CArr xs \<Rightarrow> Inl (Unmodelled ''ToPrimitive''))
      | _ \<Rightarrow> Inr False)"

text \<open>
  The call \<^verbatim>\<open>customMergers[key](targetValue, sourceValue)\<close> when \<^verbatim>\<open>customMergers\<close> is an empty
  plain object and \<^verbatim>\<open>customMergers[key]\<close> is the function \<open>f\<close> it inherits from
  \<^verbatim>\<open>Object.prototype\<close>; \<^verbatim>\<open>this\<close> is \<^verbatim>\<open>customMergers\<close>.
  \<^verbatim>\<open>toString\<close> and \<^verbatim>\<open>toLocaleString\<close> return \<^verbatim>\<open>'[object Object]'\<close>; \<^verbatim>\<open>valueOf\<close> returns
  \<^verbatim>\<open>this\<close>, the empty object that the default \<^verbatim>\<open>customMergers = {}\<close> created for the call;
  \<^verbatim>\<open>isPrototypeOf\<close> is false, that object being the prototype of nothing; \<^verbatim>\<open>constructor\<close> is
  \<^verbatim>\<open>Object\<close>, called on the target value (the second argument is ignored);
  \<^verbatim>\<open>hasOwnProperty\<close> and \<^verbatim>\<open>propertyIsEnumerable\<close> are false, the object having no property
  of its own; \<^verbatim>\<open>__lookupGetter__\<close> and \<^verbatim>\<open>__lookupSetter__\<close> find an accessor for
  \<^verbatim>\<open>__proto__\<close> only; \<^verbatim>\<open>__defineGetter__\<close> and \<^verbatim>\<open>__defineSetter__\<close> throw unless the source
  value is a function, and with a function they change \<^verbatim>\<open>customMergers\<close> itself, which is not
  given here.
\<close>

definition native_call :: "string \<Rightarrow> merger" where
  "native_call f h t s =
     (if f = ''toString'' \<or> f = ''toLocaleString'' then Inr ([], VStr ''[object Object]'')
      else if f = ''valueOf'' then Inr ([CObj []], VRef (length h))
      else if f = ''isPrototypeOf'' then Inr ([], VBool False)
      else if f = ''constructor'' then Inr (to_object h t)
      else if f = ''hasOwnProperty'' \<or> f = ''propertyIsEnumerable'' then
        (case key_is_proto h t of Inl e \<Rightarrow> Inl e | Inr b \<Rightarrow> Inr ([], VBool False))
      else if f = ''__lookupGetter__'' then
        (case key_is_proto h t of
           Inl e \<Rightarrow> Inl e
         | Inr b \<Rightarrow> Inr ([], if b then VNativeFun ''get __proto__'' else VUndefined))
      else if f = ''__lookupSetter__'' then
        (case key_is_proto h t of
           Inl e \<Rightarrow> Inl e
         | Inr b \<Rightarrow> Inr ([], if b then VNativeFun ''set __proto__'' else VUndefined))
      else
        (case s of
           VNativeFun g \<Rightarrow> Inl (Unmodelled f)
         | _ \<Rightarrow> Inl (TypeError (''Object.prototype.'' @ f @ '': Expecting function''))))"

text \<open>
  \<^verbatim>\<open>customMergers[key]\<close> for the default \<^verbatim>\<open>customMergers = {}\<close>: the object has no property of
  its own, so the lookup finds what \<^verbatim>\<open>Object.prototype\<close> has under the key. That is truthy
  for each of its twelve properties: a function for eleven of them, and for \<^verbatim>\<open>__proto__\<close> the
  object \<^verbatim>\<open>Object.prototype\<close>, which is not a function, so that calling it throws.
\<close>

definition inherited_merger :: "string \<Rightarrow> merger option" where
  "inherited_merger k =
     (if k = ''__proto__''
      then Some (\<lambda>h t s. Inl (TypeError ''customMergers[key] is not a function''))
      else if k \<in> set object_prototype_methods then Some (native_call k)
      else None)"

text \<open>The defaults of the destructuring at the head of \<^verbatim>\<open>deepMerge\<close>.\<close>

definition default_options :: MergeOptions where
  "default_options =
     \<lparr>strategy = Deep, arrayMergeStrategy = ArrReplace, customMergers = inherited_merger,
      skipKeys = [], onlyKeys = None\<rparr>"

text \<open>
  Options whose \<^verbatim>\<open>customMergers\<close> is an object without a prototype
  (\<^verbatim>\<open>Object.create(null)\<close>): no key finds a merger.
\<close>

definition bare_options :: MergeOptions where
  "bare_options = default_options\<lparr>customMergers := (\<lambda>k. None)\<rparr>"

text \<open>
  The body of \<^verbatim>\<open>for (const key in source)\<close> for one key. \<open>r\<close> is the address of
  \<^verbatim>\<open>result\<close>; \<open>rec\<close> is the recursive call \<^verbatim>\<open>deepMerge(targetValue, sourceValue, options)\<close>.
\<close>

definition merge_key ::
  "(heap \<Rightarrow> val \<Rightarrow> val \<Rightarrow> error + heap \<times> val) \<Rightarrow> MergeOptions \<Rightarrow> val \<Rightarrow> nat \<Rightarrow> string
     \<Rightarrow> heap \<Rightarrow> error + heap" where
  "merge_key rec opts source r key h =
     (if key \<in> set (skipKeys opts) then Inr h
      else if (case onlyKeys opts of None \<Rightarrow> False | Some ks \<Rightarrow> key \<notin> set ks) then Inr h
      else
        let sourceValue = get_prop h source key;
            targetValue = get_prop h (VRef r) key
        in
          if sourceValue = VUndefined then Inr h
          else
            (case customMergers opts key of
               Some m \<Rightarrow>
                 (case m h targetValue sourceValue of
                    Inl e \<Rightarrow> Inl e
                  | Inr (cells, v) \<Rightarrow> Inr (put_prop (h @ cells) r key v))
             | None \<Rightarrow>
                 if isArray h sourceValue then
                   (if isArray h targetValue then
                      (case arrayMergeStrategy opts of
                         ArrConcat \<Rightarrow>
                           (let (h1, a) = alloc h (CArr (elems h targetValue @ elems h sourceValue))
                            in Inr (put_prop h1 r key (VRef a)))
                       | ArrUnique \<Rightarrow>
                           (let (h1, a) =
                              alloc h (CArr (new_Set (elems h targetValue @ elems h sourceValue)))
                            in Inr (put_prop h1 r key (VRef a)))
                       | ArrReplace \<Rightarrow> Inr (put_prop h r key sourceValue))
                    else Inr (put_prop h r key sourceValue))
                 else if typeof sourceValue = ''object'' \<and> sourceValue \<noteq> VNull
                      \<and> \<not> isArray h sourceValue
                      \<and> typeof targetValue = ''object'' \<and> targetValue \<noteq> VNull
                      \<and> \<not> isArray h targetValue
                 then
                   (case rec h targetValue sourceValue of
                      Inl e \<Rightarrow> Inl e
                    | Inr (h1, v) \<Rightarrow> Inr (put_prop h1 r key v))
                 else Inr (put_prop h r key sourceValue)))"

fun merge_keys ::
  "(heap \<Rightarrow> val \<Rightarrow> val \<Rightarrow> error + heap \<times> val) \<Rightarrow> MergeOptions \<Rightarrow> val \<Rightarrow> nat \<Rightarrow> string list
     \<Rightarrow> heap \<Rightarrow> error + heap" where
  "merge_keys rec opts source r [] h = Inr h"
| "merge_keys rec opts source r (key # keys) h =
     (case merge_key rec opts source r key h of
        Inl e \<Rightarrow> Inl e
      | Inr h1 \<Rightarrow> merge_keys rec opts source r keys h1)"

text \<open>\<^verbatim>\<open>{ ...target, ...source }\<close> on the properties of two objects.\<close>

definition spread2 :: "(string \<times> val) list \<Rightarrow> (string \<times> val) list \<Rightarrow> (string \<times> val) list" where
  "spread2 tf sf = foldl (\<lambda>acc (k, v). set_field acc k v) tf sf"

text \<open>
  \<^verbatim>\<open>deepMerge(target, source, options)\<close>. The first argument is the number of nested calls
  the stack still has room for: a call with none left fails as the engine does on a
  recursion that is too deep. Both documents are references to objects, as the signature
  requires; \<^verbatim>\<open>strategy === 'replace'\<close> returns \<^verbatim>\<open>source\<close> before looking at either.
\<close>

primrec deepMerge ::
  "nat \<Rightarrow> MergeOptions \<Rightarrow> heap \<Rightarrow> val \<Rightarrow> val \<Rightarrow> error + heap \<times> val" where
  "deepMerge 0 opts h target source = Inl StackOverflow"
| "deepMerge (Suc n) opts h target source =
     (if strategy opts = Shallow then
        (case (fields_of h target, fields_of h source) of
           (Some tf, Some sf) \<Rightarrow>
             (let (h1, r) = alloc h (CObj (spread2 tf sf)) in Inr (h1, VRef r))
         | _ \<Rightarrow> Inl NotADocument)
      else if strategy opts = Replace then Inr (h, source)
      else
        (case (fields_of h target, fields_of h source) of
           (Some tf, Some sf) \<Rightarrow>
             (let (h1, r) = alloc h (CObj tf)
              in case merge_keys (deepMerge n opts) opts source r (map fst sf) h1 of
                   Inl e \<Rightarrow> Inl e
                 | Inr h2 \<Rightarrow> Inr (h2, VRef r))
         | _ \<Rightarrow> Inl NotADocument))"

section \<open>The validation engine (src/utils.ts, validateConfig)\<close>

text \<open>
  One entry of a \<^verbatim>\<open>ValidationSchema\<close>. A missing \<^verbatim>\<open>default\<close> is \<^verbatim>\<open>undefined\<close>, a missing
  \<^verbatim>\<open>required\<close> is falsy. A validator reads the store and returns \<^verbatim>\<open>true\<close>, \<^verbatim>\<open>false\<close> or
  a message; a transform returns the objects it creates and its result.
\<close>

datatype rule = Rule
  (r_type: "string option")
  (r_required: bool)
  (r_default: val)
  (r_validator: "(heap \<Rightarrow> val \<Rightarrow> val) option")
  (r_transform: "(heap \<Rightarrow> val \<Rightarrow> cell list \<times> val) option")
  (r_children: "(string \<times> rule) list option")

type_synonym ValidationSchema = "(string \<times> rule) list"

record ValidationResult =
  isValid :: bool
  errors :: "string list"
  validated :: val

text \<open>
  \<^verbatim>\<open>{ ...config }\<close>: the properties of an object, nothing for \<^verbatim>\<open>null\<close>, \<^verbatim>\<open>undefined\<close>, a
  boolean or a number. (The indexed properties that spreading an array or a string gives are
  not modelled: a configuration document is an object.)
\<close>

definition spread1 :: "heap \<Rightarrow> val \<Rightarrow> (string \<times> val) list" where
  "spread1 h v = (case fields_of h v of None \<Rightarrow> [] | Some kvs \<Rightarrow> kvs)"

text \<open>\<^verbatim>\<open>config[key]\<close>: reading a property of \<^verbatim>\<open>null\<close> or \<^verbatim>\<open>undefined\<close> throws a TypeError.\<close>

definition read_prop :: "heap \<Rightarrow> val \<Rightarrow> string \<Rightarrow> error + val" where
  "read_prop h v k =
     (if v = VNull \<or> v = VUndefined
      then Inl (TypeError (''Cannot read properties of '' @ (if v = VNull then ''null'' else ''undefined'')))
      else Inr (get_prop h v k))"

text \<open>\<^verbatim>\<open>Array.isArray(value) ? 'array' : typeof value\<close>\<close>

definition actualType :: "heap \<Rightarrow> val \<Rightarrow> string" where
  "actualType h v = (if isArray h v then ''array'' else typeof v)"

text \<open>
  \<^verbatim>\<open>if (rule.transform) { value = rule.transform(value); }\<close>: the store with the objects the
  transform creates, and the new value.
\<close>

definition transformed :: "rule \<Rightarrow> heap \<Rightarrow> val \<Rightarrow> heap \<times> val" where
  "transformed rule h value =
     (case r_transform rule of
        None \<Rightarrow> (h, value)
      | Some f \<Rightarrow> (let (cells, v) = f h value in (h @ cells, v)))"

text \<open>
  The checks of \<^verbatim>\<open>validateValue\<close> that come before the children: required, default,
  transform, type and validator, in the order of the source. \<open>Inl\<close> is a \<^verbatim>\<open>return\<close> (the
  store, the array \<^verbatim>\<open>errors\<close> and the value returned); \<open>Inr\<close> carries the store and the
  value, transformed if a transform is given, on to the children check.
\<close>

definition check_value ::
  "rule \<Rightarrow> heap \<Rightarrow> string list \<Rightarrow> val \<Rightarrow> string
     \<Rightarrow> (heap \<times> string list \<times> val) + (heap \<times> val)" where
  "check_value rule h errs value pth =
     (if r_required rule \<and> (value = VUndefined \<or> value = VNull)
      then Inl (h, errs @ [pth @ '' is required''], r_default rule)
      else if value = VUndefined \<and> r_default rule \<noteq> VUndefined then Inl (h, errs, r_default rule)
      else if value = VUndefined then Inl (h, errs, value)
      else
        let (h1, value1) = transformed rule h value
        in
          if truthy_str (r_type rule) \<and> actualType h1 value1 \<noteq> the (r_type rule)
          then Inl (h1,
                    errs @ [pth @ '' should be '' @ the (r_type rule) @ '', got ''
                              @ actualType h1 value1],
                    r_default rule)
          else if (case r_validator rule of None \<Rightarrow> False | Some f \<Rightarrow> f h1 value1 \<noteq> VBool True)
          then Inl (h1,
                    errs @ [case the (r_validator rule) h1 value1 of
                              VStr s \<Rightarrow> s
                            | _ \<Rightarrow> pth @ '' validation failed''],
                    r_default rule)
          else Inr (h1, value1))"

text \<open>
  \<^verbatim>\<open>validateConfig\<close>, its inner function \<^verbatim>\<open>validateValue\<close> and its loop over
  \<^verbatim>\<open>Object.entries(schema)\<close>. The array \<^verbatim>\<open>errors\<close> of the enclosing call is passed through
  \<^verbatim>\<open>validateValue\<close>, which returns it with the outcome; \<open>r\<close> is the address of
  \<^verbatim>\<open>validated\<close>.
\<close>

fun validateConfig :: "ValidationSchema \<Rightarrow> heap \<Rightarrow> val \<Rightarrow> error + heap \<times> ValidationResult"
  and validate_entries ::
    "ValidationSchema \<Rightarrow> heap \<Rightarrow> string list \<Rightarrow> val \<Rightarrow> nat \<Rightarrow> error + heap \<times> string list"
  and validateValue ::
    "rule \<Rightarrow> heap \<Rightarrow> string list \<Rightarrow> val \<Rightarrow> string \<Rightarrow> string
       \<Rightarrow> error + heap \<times> string list \<times> val"
where
  "validateConfig schema h config =
     (let (h1, r) = alloc h (CObj (spread1 h config))
      in case validate_entries schema h1 [] config r of
           Inl e \<Rightarrow> Inl e
         | Inr (h2, errs) \<Rightarrow>
             Inr (h2, \<lparr>isValid = (length errs = 0), errors = errs, validated = VRef r\<rparr>))"
| "validate_entries [] h errs config r = Inr (h, errs)"
| "validate_entries ((key, rule) # rest) h errs config r =
     (case read_prop h config key of
        Inl e \<Rightarrow> Inl e
      | Inr value \<Rightarrow>
          (case validateValue rule h errs value key key of
             Inl e \<Rightarrow> Inl e
           | Inr (h1, errs1, outcome) \<Rightarrow>
               validate_entries rest (put_prop h1 r key outcome) errs1 config r))"
| "validateValue (Rule ty req dflt vld tr ch) h errs value key pth =
     (case check_value (Rule ty req dflt vld tr ch) h errs value pth of
        Inl done \<Rightarrow> Inr done
      | Inr (h1, value1) \<Rightarrow>
          (case ch of
             None \<Rightarrow> Inr (h1, errs, value1)
           | Some cs \<Rightarrow>
               if typeof value1 = ''object'' \<and> \<not> isArray h1 value1
               then
                 (case validateConfig cs h1 value1 of
                    Inl e \<Rightarrow> Inl e
                  | Inr (h2, childResult) \<Rightarrow>
                      Inr (h2,
                           errs @ map (\<lambda>err. pth @ ''.'' @ err) (errors childResult),
                           validated childResult))
               else Inr (h1, errs, value1)))"

section \<open>Well-formed stores, frames\<close>

text \<open>
  The store \<open>h'\<close> keeps every object of \<open>h\<close> as it is, but for those at the addresses in
  \<open>A\<close>; it may hold new objects after them.
\<close>

definition frame_except :: "nat set \<Rightarrow> heap \<Rightarrow> heap \<Rightarrow> bool" where
  "frame_except A h h' = (length h \<le> length h' \<and> (\<forall>a<length h. a \<notin> A \<longrightarrow> h' ! a = h ! a))"

text \<open>
  A call that only creates objects: what it returns is over a store that keeps every
  object of the store it was called on.
\<close>

definition frames :: "(heap \<Rightarrow> val \<Rightarrow> val \<Rightarrow> error + heap \<times> val) \<Rightarrow> bool" where
  "frames rec = (\<forall>h t s h' v. rec h t s = Inr (h', v) \<longrightarrow> frame_except {} h h')"

text \<open>
  The two \<^verbatim>\<open>continue\<close> tests on \<^verbatim>\<open>skipKeys\<close> and \<^verbatim>\<open>onlyKeys\<close> at the head of the loop.
\<close>

definition filtered :: "MergeOptions \<Rightarrow> string \<Rightarrow> bool" where
  "filtered opts k =
     (k \<in> set (skipKeys opts) \<or> (case onlyKeys opts of None \<Rightarrow> False | Some ks \<Rightarrow> k \<notin> set ks))"

text \<open>
  A string, a number, a boolean or an explicit \<^verbatim>\<open>null\<close>.
\<close>

fun is_scalar :: "val \<Rightarrow> bool" where
  "is_scalar (VStr s) = True"
| "is_scalar (VNum n) = True"
| "is_scalar (VBool b) = True"
| "is_scalar VNull = True"
| "is_scalar VUndefined = False"
| "is_scalar (VRef a) = False"
| "is_scalar VObjectPrototype = False"
| "is_scalar (VNativeFun f) = False"

text \<open>
  The values an object or an array holds.
\<close>

definition cell_vals :: "cell \<Rightarrow> val list" where
  "cell_vals c = (case c of CObj kvs \<Rightarrow> map snd kvs | CArr xs \<Rightarrow> xs)"

text \<open>
  A reference is to an address of the store.
\<close>

definition in_store :: "heap \<Rightarrow> val \<Rightarrow> bool" where
  "in_store h v = (case v of VRef a \<Rightarrow> a < length h | _ \<Rightarrow> True)"

text \<open>
  A store whose references all point into it.
\<close>

definition closed :: "heap \<Rightarrow> bool" where
  "closed h = list_all (\<lambda>c. list_all (in_store h) (cell_vals c)) h"

text \<open>
  Objects are nested at most \<open>n\<close> deep below \<open>v\<close>, itself counted: a value that is not an
  object has depth 0. A parsed document is a finite tree, so it has such a depth.
\<close>

primrec nesting_le :: "nat \<Rightarrow> heap \<Rightarrow> val \<Rightarrow> bool" where
  "nesting_le 0 h v = (fields_of h v = None)"
| "nesting_le (Suc n) h v =
     (case fields_of h v of None \<Rightarrow> True | Some kvs \<Rightarrow> list_all (\<lambda>(k, x). nesting_le n h x) kvs)"

text \<open>
  A reference to an object of the store.
\<close>

definition is_document :: "heap \<Rightarrow> val \<Rightarrow> bool" where
  "is_document h v = (case v of VRef a \<Rightarrow> a < length h \<and> fields_of h v \<noteq> None | _ \<Rightarrow> False)"

text \<open>
  The keys of the objects of a store.
\<close>

definition store_keys :: "heap \<Rightarrow> string set" where
  "store_keys h = (\<Union>c\<in>set h. case c of CObj kvs \<Rightarrow> fst ` set kvs | CArr xs \<Rightarrow> {})"

text \<open>
  No custom merger that a key of the store finds throws.
\<close>

definition mergers_total_on :: "MergeOptions \<Rightarrow> heap \<Rightarrow> bool" where
  "mergers_total_on opts h0 =
     (\<forall>k\<in>store_keys h0. \<forall>m h t s. customMergers opts k = Some m \<longrightarrow> (\<exists>res. m h t s = Inr res))"

text \<open>
  What the array branch of the loop leaves at a key: \<open>tv\<close> and \<open>sv\<close> are the values of
  \<^verbatim>\<open>target\<close> and \<^verbatim>\<open>source\<close> at the key in the store \<open>h\<close> of the call, \<open>res\<close> the value of the
  result at the key in the store \<open>h'\<close> it returns.
\<close>

definition array_outcome :: "ArrayMergeStrategy \<Rightarrow> heap \<Rightarrow> val \<Rightarrow> val \<Rightarrow> heap \<Rightarrow> val \<Rightarrow> bool" where
  "array_outcome policy h tv sv h' res =
     (if isArray h tv then
        (case policy of
           ArrReplace \<Rightarrow> res = sv
         | ArrConcat \<Rightarrow> isArray h' res \<and> elems h' res = elems h tv @ elems h sv
         | ArrUnique \<Rightarrow> isArray h' res \<and> elems h' res = new_Set (elems h tv @ elems h sv))
      else res = sv)"

text \<open>
  The store of the array laws: \<^verbatim>\<open>target.items = [1, 2]\<close>, \<^verbatim>\<open>source.items = [2, 3]\<close>.
\<close>

definition items_store :: heap where
  "items_store =
     [CArr [VNum 1, VNum 2], CArr [VNum 2, VNum 3],
      CObj [(''items'', VRef 0)], CObj [(''items'', VRef 1)]]"

text \<open>
  The same two documents with the sequences under the key \<^verbatim>\<open>constructor\<close>.
\<close>

definition constructor_store :: heap where
  "constructor_store =
     [CArr [VNum 1, VNum 2], CArr [VNum 2, VNum 3],
      CObj [(''constructor'', VRef 0)], CObj [(''constructor'', VRef 1)]]"

text \<open>
  A store for the examples: a target with a nested object, a source that sets it to
  \<^verbatim>\<open>null\<close>.
\<close>

definition nested_store :: heap where
  "nested_store =
     [CObj [(''host'', VStr ''a'')],
      CObj [(''db'', VRef 0), (''b'', VNum 2)],
      CObj [(''db'', VNull), (''b'', VNum 9), (''u'', VUndefined)]]"

text \<open>
  A store for the validation examples: a configuration with a nested \<^verbatim>\<open>database\<close> object, a
  number and an explicit \<^verbatim>\<open>null\<close>.
\<close>

definition config_store :: heap where
  "config_store =
     [CObj [(''host'', VStr ''db'')],
      CObj [(''database'', VRef 0), (''extra'', VNum 5), (''n'', VNull)]]"

text \<open>
  \<^verbatim>\<open>{ database: { required: true, type: 'object', children: { port: { required: true, type:
  'number' } } } }\<close>
\<close>

definition database_schema :: ValidationSchema where
  "database_schema =
     [(''database'',
       Rule (Some ''object'') True VUndefined None None
         (Some [(''port'', Rule (Some ''number'') True VUndefined None None None)]))]"

text \<open>
  \<^verbatim>\<open>{ host: { required: false, default: 'localhost' }, port: { required: true, type:
  'number' } }\<close>
\<close>

definition defaults_schema :: ValidationSchema where
  "defaults_schema =
     [(''host'', Rule None False (VStr ''localhost'') None None None),
      (''port'', Rule (Some ''number'') True VUndefined None None None)]"

section \<open>Properties of file discovery\<close>

lemma collect_files_isBase: "f \<in> set (collect_files fs e b ps) \<Longrightarrow> isBase f = b"
  by (induction ps) (auto split: option.splits)

lemma collect_files_filter:
  "filter isBase (collect_files fs e True ps) = collect_files fs e True ps"
  "filter (\<lambda>f. \<not> isBase f) (collect_files fs e True ps) = []"
  "filter isBase (collect_files fs e False ps) = []"
  "filter (\<lambda>f. \<not> isBase f) (collect_files fs e False ps) = collect_files fs e False ps"
  by (auto simp: filter_id_conv filter_empty_conv dest: collect_files_isBase)

lemma discovered_base_first: "base_files_first (discovered fs name dir e exts)"
  by (simp add: base_files_first_def discovered_def collect_files_filter)

lemma collect_files_format:
  "f \<in> set (collect_files fs e b ps)
     \<Longrightarrow> getConfigFormat (path f) = Some (format f) \<and> ext f = extname (path f)"
  by (induction ps) (auto split: option.splits)

lemma discovered_format:
  "f \<in> set (discovered fs name dir e exts)
     \<Longrightarrow> getConfigFormat (path f) = Some (format f) \<and> ext f = extname (path f)"
  by (auto simp: discovered_def dest: collect_files_format split: if_splits)

lemma getConfigFormat_yaml:
  "extname p = ''.yml'' \<or> extname p = ''.yaml'' \<Longrightarrow> getConfigFormat p = Some YAML"
  by (auto simp: getConfigFormat_def toLowerCase_def lower_char_def)

lemma getConfigFormat_not_YML: "getConfigFormat p \<noteq> Some YML"
  by (simp add: getConfigFormat_def Let_def)

lemma priority_table:
  "priority f =
     (case format f of
        ENV \<Rightarrow> 0 | YML \<Rightarrow> 1 | YAML \<Rightarrow> 2 | JSON5 \<Rightarrow> 3 | JSON \<Rightarrow> 4 | JS \<Rightarrow> 5 | TS \<Rightarrow> 6)"
  by (cases "format f") (simp_all add: priority_def priorityOrder_def)

lemma base_files_first_filter: "base_files_first xs \<Longrightarrow> base_files_first (filter P xs)"
proof -
  assume "base_files_first xs"
  then have xs: "xs = filter isBase xs @ filter (\<lambda>f. \<not> isBase f) xs"
    by (simp add: base_files_first_def)
  have "filter P xs = filter P (filter isBase xs) @ filter P (filter (\<lambda>f. \<not> isBase f) xs)"
    by (subst xs) simp
  also have "\<dots> = filter isBase (filter P xs) @ filter (\<lambda>f. \<not> isBase f) (filter P xs)"
    by (simp add: conj_commute)
  finally show ?thesis by (simp add: base_files_first_def)
qed

text \<open>
  C9, as stated, fails. With \<^verbatim>\<open>app.config.ts\<close> (base) and \<^verbatim>\<open>app.config.prod.json\<close>
  (environment \<^verbatim>\<open>prod\<close>) in the directory, the sort by format priority puts the
  environment-specific JSON file before the base TypeScript file. And with \<^verbatim>\<open>app.config.yaml\<close>
  and \<^verbatim>\<open>app.config.yml\<close> in the directory, the \<^verbatim>\<open>.yaml\<close> file is returned before the \<^verbatim>\<open>.yml\<close>
  file, where the order of the claim has \<^verbatim>\<open>yml\<close> first: both files have the format
  \<^verbatim>\<open>yaml\<close>.
\<close>

theorem C9_base_first_counterexample:
  "map path (findConfigFiles example_fs ''app'' ''/cfg'' (Some ''prod'') None)
     = [''/cfg/app.config.prod.json'', ''/cfg/app.config.ts'']
   \<and> map isBase (findConfigFiles example_fs ''app'' ''/cfg'' (Some ''prod'') None) = [False, True]
   \<and> \<not> base_files_first (findConfigFiles example_fs ''app'' ''/cfg'' (Some ''prod'') None)
   \<and> map path (findConfigFiles yaml_fs ''app'' ''/cfg'' None None)
       = [''/cfg/app.config.yaml'', ''/cfg/app.config.yml'']
   \<and> map format (findConfigFiles yaml_fs ''app'' ''/cfg'' None None) = [YAML, YAML]"
  by (simp add: findConfigFiles_def discovered_def generateConfigPaths_def default_extensions_def
      truthy_str_def resolve_def example_fs_def yaml_fs_def getConfigFormat_def extname_def
      last_segment_def toLowerCase_def lower_char_def priority_def priorityOrder_def
      base_files_first_def)

text \<open>
  C9, amended: the sequence returned by file discovery is ordered as a whole by the priority
  of the format of its files, lowest first: \<^verbatim>\<open>env\<close> (0), \<^verbatim>\<open>yaml\<close> (2), \<^verbatim>\<open>json5\<close> (3),
  \<^verbatim>\<open>json\<close> (4), \<^verbatim>\<open>js\<close> (5), \<^verbatim>\<open>ts\<close> (6); so are its base files and its environment-specific
  files taken alone. The format of a file is what \<^verbatim>\<open>getConfigFormat\<close> gives for its path:
  \<^verbatim>\<open>yaml\<close> for a \<^verbatim>\<open>.yml\<close> as for a \<^verbatim>\<open>.yaml\<close> file, and never \<^verbatim>\<open>yml\<close> (priority 1). Among the
  files of one priority the base files come before the environment-specific ones. The
  sequence holds exactly the files discovered.
\<close>

theorem C9_sorted_by_priority:
  "sorted (map priority (findConfigFiles fs name dir e exts))
   \<and> sorted (map priority (filter isBase (findConfigFiles fs name dir e exts)))
   \<and> sorted (map priority (filter (\<lambda>f. \<not> isBase f) (findConfigFiles fs name dir e exts)))
   \<and> (\<forall>f. priority f =
          (case format f of
             ENV \<Rightarrow> 0 | YML \<Rightarrow> 1 | YAML \<Rightarrow> 2 | JSON5 \<Rightarrow> 3 | JSON \<Rightarrow> 4 | JS \<Rightarrow> 5 | TS \<Rightarrow> 6))
   \<and> (\<forall>f\<in>set (findConfigFiles fs name dir e exts).
          getConfigFormat (path f) = Some (format f) \<and> ext f = extname (path f)
          \<and> format f \<noteq> YML
          \<and> (ext f = ''.yml'' \<or> ext f = ''.yaml'' \<longrightarrow> format f = YAML))
   \<and> (\<forall>k. base_files_first (filter (\<lambda>f. priority f = k) (findConfigFiles fs name dir e exts)))
   \<and> mset (findConfigFiles fs name dir e exts) = mset (discovered fs name dir e exts)"
proof -
  let ?r = "findConfigFiles fs name dir e exts"
  have s: "sorted (map priority ?r)"
    by (simp add: findConfigFiles_def)
  have f: "sorted (map priority (filter P ?r))" for P
    using s by (rule sorted_filter)
  have m: "mset ?r = mset (discovered fs name dir e exts)"
    by (simp add: findConfigFiles_def)
  have st: "filter (\<lambda>f. priority f = k) ?r
      = filter (\<lambda>f. priority f = k) (discovered fs name dir e exts)" for k
    by (simp add: findConfigFiles_def sort_key_stable)
  have b: "base_files_first (filter (\<lambda>f. priority f = k) ?r)" for k
    unfolding st by (rule base_files_first_filter[OF discovered_base_first])
  have fm: "getConfigFormat (path g) = Some (format g) \<and> ext g = extname (path g)
          \<and> format g \<noteq> YML
          \<and> (ext g = ''.yml'' \<or> ext g = ''.yaml'' \<longrightarrow> format g = YAML)"
    if "g \<in> set ?r" for g
  proof -
    have "g \<in> set (discovered fs name dir e exts)"
      using that by (simp add: findConfigFiles_def)
    then have d: "getConfigFormat (path g) = Some (format g)" "ext g = extname (path g)"
      using discovered_format by blast+
    have "format g \<noteq> YML" using d(1) getConfigFormat_not_YML[of "path g"] by auto
    moreover have "format g = YAML" if "ext g = ''.yml'' \<or> ext g = ''.yaml''"
      using getConfigFormat_yaml[of "path g"] that d by simp
    ultimately show ?thesis using d by blast
  qed
  show ?thesis using s f m b fm priority_table by blast
qed

theorem C9_sorted_by_priority_witness:
  "map ext (findConfigFiles yaml_fs ''app'' ''/cfg'' None None) = [''.yaml'', ''.yml'']
   \<and> list_all (\<lambda>f. format f = YAML \<and> priority f = 2)
        (findConfigFiles yaml_fs ''app'' ''/cfg'' None None)
   \<and> sorted (map priority (findConfigFiles example_fs ''app'' ''/cfg'' (Some ''prod'') None))"
proof -
  let ?r = "findConfigFiles yaml_fs ''app'' ''/cfg'' None None"
  note c = C9_sorted_by_priority [of yaml_fs "''app''" "''/cfg''" None None]
  note tbl = c[THEN conjunct2, THEN conjunct2, THEN conjunct2, THEN conjunct1]
  note fmt = c[THEN conjunct2, THEN conjunct2, THEN conjunct2, THEN conjunct2, THEN conjunct1]
  have e: "map ext ?r = [''.yaml'', ''.yml'']"
    by (simp add: findConfigFiles_def discovered_def generateConfigPaths_def
        default_extensions_def truthy_str_def resolve_def yaml_fs_def getConfigFormat_def
        extname_def last_segment_def toLowerCase_def lower_char_def priority_def
        priorityOrder_def)
  have "format f = YAML \<and> priority f = 2" if "f \<in> set ?r" for f
  proof -
    have "ext f \<in> set (map ext ?r)" using that by simp
    then have "ext f = ''.yml'' \<or> ext f = ''.yaml''" unfolding e by auto
    then have "format f = YAML" using fmt that by blast
    then show ?thesis using tbl by simp
  qed
  then have "list_all (\<lambda>f. format f = YAML \<and> priority f = 2) ?r"
    by (simp add: list_all_iff)
  moreover have "sorted (map priority (findConfigFiles example_fs ''app'' ''/cfg'' (Some ''prod'') None))"
    by (rule C9_sorted_by_priority [of example_fs "''app''" "''/cfg''" "Some ''prod''" None,
          THEN conjunct1])
  ultimately show ?thesis using e by simp
qed

section \<open>The merge engine: frame, results, termination\<close>

lemma frame_except_refl [simp]: "frame_except A h h"
  by (simp add: frame_except_def)

lemma frame_except_trans:
  "frame_except A h h' \<Longrightarrow> frame_except A h' h'' \<Longrightarrow> frame_except A h h''"
  by (auto simp: frame_except_def)

lemma frame_except_mono: "frame_except A h h' \<Longrightarrow> A \<subseteq> B \<Longrightarrow> frame_except B h h'"
  by (auto simp: frame_except_def)

lemma frame_except_append [simp]: "frame_except A h (h @ cs)"
  by (simp add: frame_except_def nth_append)

lemma frame_except_put_prop [simp]: "frame_except {r} h (put_prop h r k v)"
  by (auto simp: frame_except_def put_prop_def split: cell.splits)

lemma frame_except_put_prop': "frame_except {r} h h1 \<Longrightarrow> frame_except {r} h (put_prop h1 r k v)"
  by (rule frame_except_trans[OF _ frame_except_put_prop])

lemma map_of_set_field: "map_of (set_field kvs k v) = (map_of kvs)(k \<mapsto> v)"
  by (induction kvs) (auto)

lemma map_fst_set_field:
  "map fst (set_field kvs k v) = (if k \<in> fst ` set kvs then map fst kvs else map fst kvs @ [k])"
  by (induction kvs) (force+)

lemma fields_put_prop:
  "r < length h \<Longrightarrow> fields_of h (VRef r) = Some kvs \<Longrightarrow>
   fields_of (put_prop h r k v) (VRef r) = Some (set_field kvs k v)"
  by (auto simp: fields_of_def put_prop_def cell_at_def split: cell.splits)

lemma fields_of_frame:
  "frame_except A h h' \<Longrightarrow> a < length h \<Longrightarrow> a \<notin> A \<Longrightarrow> fields_of h' (VRef a) = fields_of h (VRef a)"
  by (auto simp: frame_except_def fields_of_def cell_at_def)

lemma merge_key_cases:
  assumes "frames rec" and "merge_key rec opts s r k h = Inr h'"
  shows "h' = h \<or> (\<exists>h1 v. frame_except {} h h1 \<and> h' = put_prop h1 r k v)"
proof -
  have rec: "\<And>h t s h1 v. rec h t s = Inr (h1, v) \<Longrightarrow> frame_except {} h h1"
    using assms(1) unfolding frames_def by blast
  have same: "\<And>v. \<exists>h1 v'. frame_except {} h h1 \<and> put_prop h r k v = put_prop h1 r k v'"
    by (metis frame_except_refl)
  have app: "\<And>cs v. \<exists>h1 v'. frame_except {} h h1 \<and> put_prop (h @ cs) r k v = put_prop h1 r k v'"
    by (metis frame_except_append)
  show ?thesis
    using assms(2) same app
    unfolding merge_key_def Let_def alloc_def
    by (auto split: if_splits option.splits sum.splits prod.splits ArrayMergeStrategy.splits
        dest!: rec)
qed

lemma merge_key_frame:
  assumes "frames rec" and "merge_key rec opts s r k h = Inr h'"
  shows "frame_except {r} h h'"
  using merge_key_cases[OF assms]
  by (auto intro!: frame_except_put_prop' intro: frame_except_mono)

lemma merge_keys_frame:
  assumes "frames rec"
  shows "merge_keys rec opts s r ks h = Inr h' \<Longrightarrow> frame_except {r} h h'"
proof (induction ks arbitrary: h)
  case Nil
  then show ?case by simp
next
  case (Cons k ks)
  then obtain h1 where 1: "merge_key rec opts s r k h = Inr h1"
    and 2: "merge_keys rec opts s r ks h1 = Inr h'"
    by (auto split: sum.splits)
  show ?case
    using merge_key_frame[OF assms 1] Cons.IH[OF 2] by (rule frame_except_trans)
qed

lemma frame_except_below:
  "frame_except {} h0 h \<Longrightarrow> frame_except {r} h h' \<Longrightarrow> length h0 \<le> r \<Longrightarrow> frame_except {} h0 h'"
  by (auto simp: frame_except_def)

lemma frame_except_alloc:
  "frame_except {length h} (h @ [c]) h' \<Longrightarrow> frame_except {} h h'"
  by (auto simp: frame_except_def nth_append)

lemma deepMerge_deep_Inr:
  assumes "strategy opts \<noteq> Shallow" and "strategy opts \<noteq> Replace"
    and "deepMerge (Suc n) opts h t s = Inr (h', v)"
  shows "\<exists>tf sf. fields_of h t = Some tf \<and> fields_of h s = Some sf
           \<and> merge_keys (deepMerge n opts) opts s (length h) (map fst sf) (h @ [CObj tf]) = Inr h'
           \<and> v = VRef (length h)"
  using assms by (auto simp: alloc_def split: option.splits sum.splits)

lemma deepMerge_frames: "frames (deepMerge n opts)"
proof (induction n)
  case 0
  then show ?case by (simp add: frames_def)
next
  case (Suc n)
  show ?case
    unfolding frames_def
  proof (intro allI impI)
    fix h t s h' v
    assume a: "deepMerge (Suc n) opts h t s = Inr (h', v)"
    show "frame_except {} h h'"
    proof (cases "strategy opts = Shallow \<or> strategy opts = Replace")
      case True
      then show ?thesis using a
        by (auto simp: alloc_def split: option.splits)
    next
      case False
      then obtain tf sf where "fields_of h s = Some sf" and
        m: "merge_keys (deepMerge n opts) opts s (length h) (map fst sf) (h @ [CObj tf]) = Inr h'"
        using deepMerge_deep_Inr[OF _ _ a] by blast
      show ?thesis
        using merge_keys_frame[OF Suc m] by (rule frame_except_alloc)
    qed
  qed
qed

lemma frame_except_prefix: "frame_except {} h h' \<Longrightarrow> take (length h) h' = h"
  by (auto simp: frame_except_def intro: nth_equalityI)

lemma deepMerge_prefix: "deepMerge n opts h t s = Inr (h', v) \<Longrightarrow> take (length h) h' = h"
  using deepMerge_frames[of n opts] unfolding frames_def by (blast intro: frame_except_prefix)

lemma merge_key_fields:
  assumes "frames rec" and "merge_key rec opts s r k h = Inr h'"
    and "r < length h" and "fields_of h (VRef r) = Some kvs"
  shows "fields_of h' (VRef r) = Some kvs \<or> (\<exists>v. fields_of h' (VRef r) = Some (set_field kvs k v))"
proof -
  from merge_key_cases[OF assms(1,2)]
  consider "h' = h" | h1 v where "frame_except {} h h1" "h' = put_prop h1 r k v"
    by blast
  then show ?thesis
  proof cases
    case 1
    then show ?thesis using assms(4) by simp
  next
    case 2
    have "fields_of h1 (VRef r) = Some kvs"
      using fields_of_frame[OF 2(1) assms(3)] assms(4) by simp
    moreover have "r < length h1"
      using 2(1) assms(3) by (simp add: frame_except_def)
    ultimately show ?thesis
      using 2(2) by (auto simp: fields_put_prop)
  qed
qed

lemma merge_keys_fields:
  assumes "frames rec"
  shows "merge_keys rec opts s r ks h = Inr h' \<Longrightarrow> r < length h \<Longrightarrow> fields_of h (VRef r) = Some kvs
    \<Longrightarrow> \<exists>kvs'. fields_of h' (VRef r) = Some kvs' \<and> (\<forall>k. k \<notin> set ks \<longrightarrow> map_of kvs' k = map_of kvs k)"
proof (induction ks arbitrary: h kvs)
  case Nil
  then show ?case by simp
next
  case (Cons k ks)
  then obtain h1 where 1: "merge_key rec opts s r k h = Inr h1"
    and 2: "merge_keys rec opts s r ks h1 = Inr h'"
    by (auto split: sum.splits)
  have len: "r < length h1"
    using merge_key_frame[OF assms 1] Cons.prems(2) by (simp add: frame_except_def)
  from merge_key_fields[OF assms 1 Cons.prems(2,3)]
  obtain kvs1 where f1: "fields_of h1 (VRef r) = Some kvs1"
    and k1: "\<forall>k'. k' \<noteq> k \<longrightarrow> map_of kvs1 k' = map_of kvs k'"
    by (auto simp: map_of_set_field)
  from Cons.IH[OF 2 len f1] obtain kvs' where
    "fields_of h' (VRef r) = Some kvs'" "\<forall>k. k \<notin> set ks \<longrightarrow> map_of kvs' k = map_of kvs1 k"
    by blast
  then show ?case using k1 by auto
qed

lemma merge_key_filtered: "filtered opts k \<Longrightarrow> merge_key rec opts s r k h = Inr h"
  by (auto simp: merge_key_def filtered_def split: option.splits)

lemma merge_key_scalar:
  assumes "\<not> filtered opts k" and "customMergers opts k = None" and "is_scalar (get_prop h s k)"
  shows "merge_key rec opts s r k h = Inr (put_prop h r k (get_prop h s k))"
  using assms
  by (cases "get_prop h s k")
     (auto simp: merge_key_def filtered_def isArray_def split: option.splits)

lemma get_prop_frame:
  "frame_except A h h' \<Longrightarrow> a < length h \<Longrightarrow> a \<notin> A \<Longrightarrow> get_prop h' (VRef a) k = get_prop h (VRef a) k"
  by (simp add: get_prop_def fields_of_frame)

lemma get_prop_put_prop:
  "r < length h \<Longrightarrow> fields_of h (VRef r) = Some kvs \<Longrightarrow> get_prop (put_prop h r k v) (VRef r) k = v"
  by (simp add: get_prop_def fields_put_prop lookup_def map_of_set_field)

lemma own_prop_get_prop: "own_prop h v k \<noteq> VUndefined \<Longrightarrow> get_prop h v k = own_prop h v k"
  by (auto simp: own_prop_def get_prop_def lookup_def fields_of_def split: option.splits)

lemma get_prop_map_of:
  "fields_of h (VRef a) = Some kvs \<Longrightarrow> fields_of h' (VRef a') = Some kvs'
   \<Longrightarrow> map_of kvs' k = map_of kvs k
   \<Longrightarrow> get_prop h' (VRef a') k = get_prop h (VRef a) k"
  by (simp add: get_prop_def lookup_def)

lemma merge_keys_scalar:
  assumes fr: "frames rec" and nf: "\<not> filtered opts k" and nm: "customMergers opts k = None"
    and sa: "sa < length h0" "sa \<noteq> r"
  shows "merge_keys rec opts (VRef sa) r ks h = Inr h' \<Longrightarrow> frame_except {r} h0 h \<Longrightarrow> r < length h
    \<Longrightarrow> fields_of h (VRef r) = Some kvs \<Longrightarrow> is_scalar (get_prop h0 (VRef sa) k)
    \<Longrightarrow> k \<in> set ks \<or> get_prop h (VRef r) k = get_prop h0 (VRef sa) k
    \<Longrightarrow> get_prop h' (VRef r) k = get_prop h0 (VRef sa) k"
proof (induction ks arbitrary: h kvs)
  case Nil
  then show ?case by simp
next
  case (Cons k' ks)
  then obtain h1 where 1: "merge_key rec opts (VRef sa) r k' h = Inr h1"
    and 2: "merge_keys rec opts (VRef sa) r ks h1 = Inr h'"
    by (auto split: sum.splits)
  have f1: "frame_except {r} h h1" by (rule merge_key_frame[OF fr 1])
  have f01: "frame_except {r} h0 h1" using Cons.prems(2) f1 by (rule frame_except_trans)
  have len: "r < length h1" using f1 Cons.prems(3) by (simp add: frame_except_def)
  have src: "get_prop h (VRef sa) k = get_prop h0 (VRef sa) k"
    using get_prop_frame[OF Cons.prems(2)] sa by simp
  from merge_key_fields[OF fr 1 Cons.prems(3,4)]
  obtain kvs1 where fk1: "fields_of h1 (VRef r) = Some kvs1"
    and o1: "\<forall>k''. k'' \<noteq> k' \<longrightarrow> map_of kvs1 k'' = map_of kvs k''"
    by (auto simp: map_of_set_field)
  have "k \<in> set ks \<or> get_prop h1 (VRef r) k = get_prop h0 (VRef sa) k"
  proof (cases "k' = k")
    case True
    have "h1 = put_prop h r k (get_prop h (VRef sa) k)"
      using 1 merge_key_scalar[OF nf nm, of h "VRef sa" rec r] Cons.prems(5) src True by simp
    then show ?thesis
      using get_prop_put_prop[OF Cons.prems(3,4)] src by simp
  next
    case False
    show ?thesis
    proof (cases "k \<in> set ks")
      case True
      then show ?thesis by simp
    next
      case nk: False
      then have "get_prop h (VRef r) k = get_prop h0 (VRef sa) k"
        using Cons.prems(6) False by auto
      moreover have "get_prop h1 (VRef r) k = get_prop h (VRef r) k"
        using get_prop_map_of[OF Cons.prems(4) fk1] o1 False by auto
      ultimately show ?thesis by simp
    qed
  qed
  then show ?case
    using Cons.IH[OF 2 f01 len fk1 Cons.prems(5)] by blast
qed

lemma fields_of_Some_ref:
  "fields_of h v = Some kvs \<Longrightarrow> (\<exists>a. v = VRef a) \<or> (v = VObjectPrototype \<and> kvs = [])"
  by (cases v) (auto simp: fields_of_def)

lemma is_document_ref: "is_document h v \<Longrightarrow> \<exists>a. v = VRef a \<and> a < length h"
  by (cases v) (auto simp: is_document_def)

lemma inherited_not_own [simp]:
  "\<not> is_scalar (inherited k)" "inherited k \<noteq> VRef a" "inherited k \<noteq> VNull"
  by (auto simp: inherited_def)

lemma get_prop_own:
  assumes "is_scalar (get_prop h (VRef a) k) \<or> (\<exists>b. get_prop h (VRef a) k = VRef b)"
    and "fields_of h (VRef a) = Some kvs"
  shows "a < length h \<and> map_of kvs k = Some (get_prop h (VRef a) k)"
proof -
  have "get_prop h (VRef a) k = lookup kvs k" using assms(2) by (simp add: get_prop_def)
  then have m: "map_of kvs k = Some (get_prop h (VRef a) k)"
    using assms(1) by (auto simp: lookup_def split: option.splits)
  then have "kvs \<noteq> []" by auto
  then have "a < length h"
    using assms(2) by (auto simp: fields_of_def cell_at_def split: if_splits)
  then show ?thesis using m by simp
qed

lemma fields_of_alloc_old:
  "a < length h \<Longrightarrow> fields_of (h @ cs) (VRef a) = fields_of h (VRef a)"
  by (simp add: fields_of_def cell_at_def nth_append)

lemma fields_of_alloc_new [simp]: "fields_of (h @ [CObj kvs]) (VRef (length h)) = Some kvs"
  by (simp add: fields_of_def cell_at_def)

lemma deepMerge_scalar:
  assumes st: "strategy opts \<noteq> Shallow" "strategy opts \<noteq> Replace"
    and nf: "\<not> filtered opts k" and nm: "customMergers opts k = None"
    and sc: "is_scalar (get_prop h (VRef sa) k)"
    and dm: "deepMerge n opts h t (VRef sa) = Inr (h', v)"
  shows "get_prop h' v k = get_prop h (VRef sa) k"
proof (cases n)
  case 0
  then show ?thesis using dm by simp
next
  case (Suc m)
  from deepMerge_deep_Inr[OF st dm[unfolded Suc]]
  obtain tf sf where ft: "fields_of h t = Some tf" and fs: "fields_of h (VRef sa) = Some sf"
    and mk: "merge_keys (deepMerge m opts) opts (VRef sa) (length h) (map fst sf) (h @ [CObj tf])
               = Inr h'"
    and v: "v = VRef (length h)"
    by blast
  have own: "sa < length h \<and> map_of sf k = Some (get_prop h (VRef sa) k)"
    using get_prop_own[OF _ fs] sc by blast
  then have sa: "sa < length h" and kin: "k \<in> set (map fst sf)"
    by (auto dest: map_of_SomeD intro: rev_image_eqI)
  have src: "get_prop (h @ [CObj tf]) (VRef sa) k = get_prop h (VRef sa) k"
    using sa by (simp add: get_prop_def fields_of_alloc_old)
  have "get_prop h' (VRef (length h)) k = get_prop (h @ [CObj tf]) (VRef sa) k"
  proof (rule merge_keys_scalar[OF deepMerge_frames nf nm _ _ mk])
    show "sa < length (h @ [CObj tf])" using sa by simp
    show "sa \<noteq> length h" using sa by simp
    show "frame_except {length h} (h @ [CObj tf]) (h @ [CObj tf])" by simp
    show "length h < length (h @ [CObj tf])" by simp
    show "fields_of (h @ [CObj tf]) (VRef (length h)) = Some tf" by simp
    show "is_scalar (get_prop (h @ [CObj tf]) (VRef sa) k)" using src sc by simp
    show "k \<in> set (map fst sf) \<or>
      get_prop (h @ [CObj tf]) (VRef (length h)) k = get_prop (h @ [CObj tf]) (VRef sa) k"
      using kin by simp
  qed
  then show ?thesis using v src by simp
qed

lemma plain_fields:
  "typeof v = ''object'' \<Longrightarrow> v \<noteq> VNull \<Longrightarrow> \<not> isArray h v \<Longrightarrow> \<exists>kvs. fields_of h v = Some kvs"
  by (cases v) (auto simp: isArray_def fields_of_def split: cell.splits)

lemma merge_key_total:
  assumes mt: "\<And>m t s'. customMergers opts k = Some m \<Longrightarrow> \<exists>res. m h t s' = Inr res"
    and rec: "\<And>kvs kvs'. fields_of h (get_prop h (VRef r) k) = Some kvs
                \<Longrightarrow> fields_of h (get_prop h s k) = Some kvs'
                \<Longrightarrow> \<exists>res. rec h (get_prop h (VRef r) k) (get_prop h s k) = Inr res"
  shows "\<exists>h'. merge_key rec opts s r k h = Inr h'"
proof (cases "customMergers opts k")
  case (Some m)
  then obtain res where "m h (get_prop h (VRef r) k) (get_prop h s k) = Inr res"
    using mt by blast
  then show ?thesis
    using Some by (cases res) (auto simp: merge_key_def Let_def split: option.splits)
next
  case None
  show ?thesis
  proof (cases "typeof (get_prop h s k) = ''object'' \<and> get_prop h s k \<noteq> VNull
        \<and> \<not> isArray h (get_prop h s k) \<and> typeof (get_prop h (VRef r) k) = ''object''
        \<and> get_prop h (VRef r) k \<noteq> VNull \<and> \<not> isArray h (get_prop h (VRef r) k)")
    case True
    then obtain res where "rec h (get_prop h (VRef r) k) (get_prop h s k) = Inr res"
      using rec plain_fields by meson
    then show ?thesis
      using None True
      by (cases res) (auto simp: merge_key_def Let_def split: option.splits)
  next
    case False
    then show ?thesis
      using None
      by (auto simp: merge_key_def Let_def alloc_def
          split: option.splits ArrayMergeStrategy.splits)
  qed
qed

lemma closed_field_in_store:
  assumes "closed h" and "a < length h" and "fields_of h (VRef a) = Some kvs" and "(k, v) \<in> set kvs"
  shows "in_store h v"
proof -
  have "h ! a = CObj kvs"
    using assms(2,3) by (auto simp: fields_of_def cell_at_def split: cell.splits)
  then have "CObj kvs \<in> set h"
    using assms(2) nth_mem by fastforce
  then have "list_all (in_store h) (cell_vals (CObj kvs))"
    using assms(1) by (simp add: closed_def list_all_iff)
  then have "list_all (in_store h) (map snd kvs)"
    by (simp add: cell_vals_def)
  then show ?thesis using assms(4) by (auto simp: list_all_iff)
qed

lemma store_keys_mem:
  assumes "a < length h" and "fields_of h (VRef a) = Some kvs" and "k \<in> fst ` set kvs"
  shows "k \<in> store_keys h"
proof -
  have "h ! a = CObj kvs"
    using assms(1,2) by (auto simp: fields_of_def cell_at_def split: cell.splits)
  then have "CObj kvs \<in> set h"
    using assms(1) nth_mem by fastforce
  then show ?thesis
    using assms(3) unfolding store_keys_def by force
qed

lemma merge_keys_total:
  assumes fr: "frames rec" and mt: "mergers_total_on opts h0" and cl: "closed h0"
    and sa: "sa < length h0" and r0: "length h0 \<le> r"
    and sf: "fields_of h0 (VRef sa) = Some sf"
    and nest: "list_all (\<lambda>(k, x). nesting_le n h0 x) sf"
    and rec: "\<And>h t s'. frame_except {} h0 h \<Longrightarrow> fields_of h t \<noteq> None \<Longrightarrow> in_store h0 s'
                \<Longrightarrow> fields_of h0 s' \<noteq> None \<Longrightarrow> nesting_le n h0 s'
                \<Longrightarrow> \<exists>res. rec h t s' = Inr res"
  shows "frame_except {} h0 h \<Longrightarrow> set ks \<subseteq> fst ` set sf
    \<Longrightarrow> \<exists>h'. merge_keys rec opts (VRef sa) r ks h = Inr h'"
proof (induction ks arbitrary: h)
  case Nil
  then show ?case by simp
next
  case (Cons k ks)
  have src: "fields_of h (VRef sa) = Some sf"
    using fields_of_frame[OF Cons.prems(1) sa] sf by simp
  have kin: "k \<in> fst ` set sf" using Cons.prems(2) by simp
  have "\<exists>h1. merge_key rec opts (VRef sa) r k h = Inr h1"
  proof (rule merge_key_total)
    fix m t s'
    assume "customMergers opts k = Some m"
    then show "\<exists>res. m h t s' = Inr res"
      using mt store_keys_mem[OF sa sf kin] unfolding mergers_total_on_def by blast
  next
    fix kvs kvs'
    assume t: "fields_of h (get_prop h (VRef r) k) = Some kvs"
      and s: "fields_of h (get_prop h (VRef sa) k) = Some kvs'"
    let ?sv = "get_prop h (VRef sa) k"
    obtain x where x: "map_of sf k = Some x"
      using kin by (metis domIff dom_map_of_conv_image_fst not_Some_eq)
    have sv: "?sv = x" using src x by (simp add: get_prop_def lookup_def)
    have mem: "(k, ?sv) \<in> set sf" using x sv by (auto dest: map_of_SomeD)
    have ins: "in_store h0 ?sv" by (rule closed_field_in_store[OF cl sa sf mem])
    have f0: "fields_of h0 ?sv \<noteq> None"
    proof (cases "?sv = VObjectPrototype")
      case True
      then show ?thesis by (simp add: fields_of_def)
    next
      case False
      then obtain b where b: "?sv = VRef b" using fields_of_Some_ref[OF s] by blast
      then have "b < length h0" using ins by (simp add: in_store_def)
      then have "fields_of h0 ?sv = fields_of h ?sv"
        using fields_of_frame[OF Cons.prems(1), of b] b by simp
      then show ?thesis using s by simp
    qed
    have "nesting_le n h0 ?sv" using nest mem by (auto simp: list_all_iff)
    then show "\<exists>res. rec h (get_prop h (VRef r) k) ?sv = Inr res"
      using rec[OF Cons.prems(1) _ ins f0] t by simp
  qed
  then obtain h1 where 1: "merge_key rec opts (VRef sa) r k h = Inr h1" by blast
  have "frame_except {} h0 h1"
    using Cons.prems(1) merge_key_frame[OF fr 1] r0 by (rule frame_except_below)
  from Cons.IH[OF this] Cons.prems(2) show ?case using 1 by simp
qed

lemma deepMerge_total_aux:
  assumes mt: "mergers_total_on opts h0" and cl: "closed h0"
  shows "frame_except {} h0 h \<Longrightarrow> in_store h0 s \<Longrightarrow> fields_of h0 s \<noteq> None \<Longrightarrow> nesting_le n h0 s
    \<Longrightarrow> fields_of h t \<noteq> None \<Longrightarrow> \<exists>res. deepMerge n opts h t s = Inr res"
proof (induction n arbitrary: h t s)
  case 0
  then show ?case by simp
next
  case (Suc n)
  obtain sf where sf: "fields_of h0 s = Some sf" using Suc.prems(3) by blast
  obtain tf where tf: "fields_of h t = Some tf" using Suc.prems(5) by blast
  show ?case
  proof (cases "s = VObjectPrototype")
    case True
    then show ?thesis using tf by (auto simp: alloc_def fields_of_def)
  next
    case np: False
    then obtain sa where s: "s = VRef sa" using fields_of_Some_ref[OF sf] by blast
    have sa: "sa < length h0" using Suc.prems(2) s by (simp add: in_store_def)
    have sfh: "fields_of h s = Some sf"
      using fields_of_frame[OF Suc.prems(1) sa] sf s by simp
    show ?thesis
    proof (cases "strategy opts = Shallow \<or> strategy opts = Replace")
      case True
      then show ?thesis using sfh tf by (auto simp: alloc_def)
    next
      case False
      have nest: "list_all (\<lambda>(k, x). nesting_le n h0 x) sf"
        using Suc.prems(4) sf by simp
      have f1: "frame_except {} h0 (h @ [CObj tf])"
        using Suc.prems(1) frame_except_append by (rule frame_except_trans)
      have r0: "length h0 \<le> length h"
        using Suc.prems(1) by (simp add: frame_except_def)
      have "\<exists>h'. merge_keys (deepMerge n opts) opts (VRef sa) (length h) (map fst sf)
              (h @ [CObj tf]) = Inr h'"
        using merge_keys_total[OF deepMerge_frames mt cl sa r0 sf[unfolded s] nest Suc.IH f1]
        by simp
      then show ?thesis
        using False sfh tf s by (auto simp: alloc_def)
    qed
  qed
qed

lemma deepMerge_total:
  assumes "mergers_total_on opts h" and "closed h" and "is_document h t" and "is_document h s"
    and "nesting_le n h s"
  shows "\<exists>h' v. deepMerge n opts h t s = Inr (h', v)"
proof -
  obtain ta sa where "t = VRef ta" "ta < length h" "s = VRef sa" "sa < length h"
    using assms(3,4) is_document_ref by blast
  then have "in_store h s" "fields_of h s \<noteq> None" "fields_of h t \<noteq> None"
    using assms(3,4) by (simp_all add: is_document_def in_store_def)
  then show ?thesis
    using deepMerge_total_aux[OF assms(1,2) frame_except_refl, of s n t] assms(5) by auto
qed

lemma merge_key_undefined: "get_prop h s k = VUndefined \<Longrightarrow> merge_key rec opts s r k h = Inr h"
  by (auto simp: merge_key_def)

lemma merge_keys_untouched:
  assumes fr: "frames rec"
    and skip: "\<And>h h1. frame_except {r} h0 h \<Longrightarrow> merge_key rec opts s r k h = Inr h1 \<Longrightarrow> h1 = h"
  shows "merge_keys rec opts s r ks h = Inr h' \<Longrightarrow> frame_except {r} h0 h \<Longrightarrow> r < length h
    \<Longrightarrow> fields_of h (VRef r) = Some kvs
    \<Longrightarrow> \<exists>kvs'. fields_of h' (VRef r) = Some kvs' \<and> map_of kvs' k = map_of kvs k"
proof (induction ks arbitrary: h kvs)
  case Nil
  then show ?case by simp
next
  case (Cons k' ks)
  then obtain h1 where 1: "merge_key rec opts s r k' h = Inr h1"
    and 2: "merge_keys rec opts s r ks h1 = Inr h'"
    by (auto split: sum.splits)
  have f1: "frame_except {r} h h1" by (rule merge_key_frame[OF fr 1])
  have f01: "frame_except {r} h0 h1" using Cons.prems(2) f1 by (rule frame_except_trans)
  have len: "r < length h1" using f1 Cons.prems(3) by (simp add: frame_except_def)
  have "\<exists>kvs1. fields_of h1 (VRef r) = Some kvs1 \<and> map_of kvs1 k = map_of kvs k"
  proof (cases "k' = k")
    case True
    then have "h1 = h" using skip[OF Cons.prems(2)] 1 by simp
    then show ?thesis using Cons.prems(4) by simp
  next
    case False
    then show ?thesis
      using merge_key_fields[OF fr 1 Cons.prems(3,4)] by (auto simp: map_of_set_field)
  qed
  then obtain kvs1 where fk1: "fields_of h1 (VRef r) = Some kvs1"
    and m1: "map_of kvs1 k = map_of kvs k"
    by blast
  show ?case using Cons.IH[OF 2 f01 len fk1] m1 by simp
qed

lemma deepMerge_key_skipped:
  assumes st: "strategy opts \<noteq> Shallow" "strategy opts \<noteq> Replace"
    and sk: "filtered opts k \<or> get_prop h s k = VUndefined"
    and dm: "deepMerge n opts h t s = Inr (h', v)"
  shows "\<exists>tf rf. fields_of h t = Some tf \<and> fields_of h' v = Some rf \<and> map_of rf k = map_of tf k"
proof (cases n)
  case 0
  then show ?thesis using dm by simp
next
  case (Suc m)
  from deepMerge_deep_Inr[OF st dm[unfolded Suc]]
  obtain tf sf where ft: "fields_of h t = Some tf" and fs: "fields_of h s = Some sf"
    and mk: "merge_keys (deepMerge m opts) opts s (length h) (map fst sf) (h @ [CObj tf]) = Inr h'"
    and v: "v = VRef (length h)"
    by blast
  show ?thesis
  proof (cases "\<exists>sa. s = VRef sa \<and> sa < length h")
    case True
    then obtain sa where s: "s = VRef sa" and sa: "sa < length h" by blast
    have skip: "h1 = h2"
      if "frame_except {length h} (h @ [CObj tf]) h2"
        and "merge_key (deepMerge m opts) opts s (length h) k h2 = Inr h1" for h1 h2
    proof (cases "filtered opts k")
      case True
      then show ?thesis using that(2) by (simp add: merge_key_filtered)
    next
      case False
      then have "get_prop h s k = VUndefined" using sk by simp
      then have "get_prop (h @ [CObj tf]) s k = VUndefined"
        using sa s by (simp add: get_prop_def fields_of_alloc_old)
      then have "get_prop h2 s k = VUndefined"
        using get_prop_frame[OF that(1), of sa k] sa s by simp
      then show ?thesis using that(2) by (simp add: merge_key_undefined)
    qed
    have "\<exists>rf. fields_of h' (VRef (length h)) = Some rf \<and> map_of rf k = map_of tf k"
    proof (rule merge_keys_untouched[OF deepMerge_frames skip mk])
      show "frame_except {length h} (h @ [CObj tf]) (h @ [CObj tf])"
        by (rule frame_except_refl)
      show "length h < length (h @ [CObj tf])" by simp
      show "fields_of (h @ [CObj tf]) (VRef (length h)) = Some tf" by simp
    qed
    then show ?thesis using ft v by simp
  next
    case False
    then have "sf = []"
      using fs fields_of_Some_ref[OF fs] by (auto simp: fields_of_def cell_at_def)
    then have "h' = h @ [CObj tf]" using mk by simp
    then show ?thesis using ft v by simp
  qed
qed

lemma deepMerge_result_fresh:
  assumes "strategy opts \<noteq> Replace" and dm: "deepMerge n opts h t s = Inr (h', v)"
  shows "v = VRef (length h) \<and> length h < length h' \<and> fields_of h' v \<noteq> None"
proof (cases n)
  case 0
  then show ?thesis using dm by simp
next
  case (Suc m)
  show ?thesis
  proof (cases "strategy opts = Shallow")
    case True
    then show ?thesis using dm Suc by (auto simp: alloc_def split: option.splits)
  next
    case False
    from deepMerge_deep_Inr[OF False assms(1) dm[unfolded Suc]]
    obtain tf sf where fs: "fields_of h s = Some sf"
      and mk: "merge_keys (deepMerge m opts) opts s (length h) (map fst sf) (h @ [CObj tf]) = Inr h'"
      and v: "v = VRef (length h)"
      by blast
    have "frame_except {length h} (h @ [CObj tf]) h'"
      by (rule merge_keys_frame[OF deepMerge_frames mk])
    then have "length h < length h'" by (simp add: frame_except_def)
    moreover have "\<exists>rf. fields_of h' (VRef (length h)) = Some rf"
      using merge_keys_fields[OF deepMerge_frames mk, of tf] by auto
    ultimately show ?thesis using v by auto
  qed
qed

lemma merge_key_indep:
  assumes "filtered opts k"
  shows "merge_key rec (opts\<lparr>customMergers := (customMergers opts)(k := m)\<rparr>) s r k' h
           = merge_key rec opts s r k' h"
proof (cases "k' = k")
  case True
  have "filtered (opts\<lparr>customMergers := (customMergers opts)(k := m)\<rparr>) k"
    using assms by (simp add: filtered_def)
  then show ?thesis using assms True by (simp add: merge_key_filtered)
next
  case False
  then show ?thesis by (simp add: merge_key_def Let_def cong: option.case_cong if_cong)
qed

lemma merge_keys_indep:
  assumes "filtered opts k"
  shows "merge_keys rec (opts\<lparr>customMergers := (customMergers opts)(k := m)\<rparr>) s r ks h
           = merge_keys rec opts s r ks h"
  by (induction ks arbitrary: h) (auto simp: merge_key_indep[OF assms] split: sum.splits)

lemma deepMerge_indep:
  assumes "filtered opts k"
  shows "deepMerge n (opts\<lparr>customMergers := (customMergers opts)(k := m)\<rparr>) h t s
           = deepMerge n opts h t s"
proof (induction n arbitrary: h t s)
  case 0
  then show ?case by simp
next
  case (Suc n)
  have eq: "deepMerge n (opts\<lparr>customMergers := (customMergers opts)(k := m)\<rparr>) = deepMerge n opts"
    using Suc by (intro ext)
  have st: "strategy (opts\<lparr>customMergers := (customMergers opts)(k := m)\<rparr>) = strategy opts"
    by simp
  show ?case
    by (simp only: deepMerge.simps eq st merge_keys_indep[OF assms])
qed

lemma foldl_set_add:
  "distinct acc \<Longrightarrow> foldl set_add acc xs = rev (remdups (rev (acc @ xs)))"
proof (induction xs arbitrary: acc)
  case Nil
  then show ?case by (simp add: distinct_remdups_id)
next
  case (Cons x xs)
  show ?case
  proof (cases "x \<in> set acc")
    case True
    have "remdups (rev xs @ x # rev acc) = remdups (rev xs @ remdups (x # rev acc))"
      by (simp only: remdups_append2)
    also have "\<dots> = remdups (rev xs @ remdups (rev acc))"
      using True by simp
    also have "\<dots> = remdups (rev xs @ rev acc)"
      by (simp only: remdups_append2)
    finally have "remdups (rev xs @ x # rev acc) = remdups (rev xs @ rev acc)" .
    then show ?thesis using Cons True by (simp add: set_add_def)
  next
    case False
    then have "distinct (acc @ [x])" using Cons.prems by simp
    from Cons.IH[OF this] show ?thesis using False by (simp add: set_add_def)
  qed
qed

lemma new_Set_first_occurrences: "new_Set xs = rev (remdups (rev xs))"
  using foldl_set_add[of "[]" xs] by (simp add: new_Set_def)

lemma new_Set_distinct: "distinct (new_Set xs)" and new_Set_set: "set (new_Set xs) = set xs"
  by (simp_all add: new_Set_first_occurrences)

lemma merge_keys_append:
  "merge_keys rec opts s r (xs @ ys) h =
     (case merge_keys rec opts s r xs h of Inl e \<Rightarrow> Inl e | Inr h1 \<Rightarrow> merge_keys rec opts s r ys h1)"
  by (induction xs arbitrary: h) (auto split: sum.splits)

lemma isArray_in_store: "isArray h (VRef a) \<Longrightarrow> a < length h"
  by (auto simp: isArray_def cell_at_def split: if_splits)

lemma isArray_not_fields: "isArray h v \<Longrightarrow> fields_of h v = None"
  by (auto simp: isArray_def fields_of_def split: val.splits cell.splits)

lemma isArray_frame:
  "frame_except A h h' \<Longrightarrow> in_store h v \<Longrightarrow> (\<And>a. v = VRef a \<Longrightarrow> a \<notin> A)
   \<Longrightarrow> isArray h' v = isArray h v \<and> elems h' v = elems h v"
  by (cases v) (auto simp: frame_except_def isArray_def elems_def cell_at_def in_store_def)

lemma merge_key_array:
  assumes "\<not> filtered opts k" and "customMergers opts k = None"
    and "get_prop h s k = sv" and "get_prop h (VRef r) k = tv" and "isArray h sv"
  shows "merge_key rec opts s r k h =
     (if isArray h tv then
        (case arrayMergeStrategy opts of
           ArrReplace \<Rightarrow> Inr (put_prop h r k sv)
         | ArrConcat \<Rightarrow> Inr (put_prop (h @ [CArr (elems h tv @ elems h sv)]) r k (VRef (length h)))
         | ArrUnique \<Rightarrow>
             Inr (put_prop (h @ [CArr (new_Set (elems h tv @ elems h sv))]) r k (VRef (length h))))
      else Inr (put_prop h r k sv))"
proof -
  have "sv \<noteq> VUndefined" using assms(5) by (auto simp: isArray_def)
  then show ?thesis
    using assms
    by (auto simp: merge_key_def filtered_def alloc_def Let_def
        split: option.splits ArrayMergeStrategy.splits)
qed

lemma put_prop_length [simp]: "length (put_prop h r k v) = length h"
  by (simp add: put_prop_def split: cell.splits)

lemma put_prop_new_array:
  assumes "r < length h" and "fields_of h (VRef r) = Some kvs"
  shows "get_prop (put_prop (h @ [CArr xs]) r k (VRef (length h))) (VRef r) k = VRef (length h)"
    and "isArray (put_prop (h @ [CArr xs]) r k (VRef (length h))) (VRef (length h))"
    and "elems (put_prop (h @ [CArr xs]) r k (VRef (length h))) (VRef (length h)) = xs"
    and "fields_of (put_prop (h @ [CArr xs]) r k (VRef (length h))) (VRef r)
           = Some (set_field kvs k (VRef (length h)))"
proof -
  have f: "fields_of (h @ [CArr xs]) (VRef r) = Some kvs"
    using assms by (simp add: fields_of_alloc_old)
  have l: "r < length (h @ [CArr xs])" using assms(1) by simp
  show "get_prop (put_prop (h @ [CArr xs]) r k (VRef (length h))) (VRef r) k = VRef (length h)"
    by (rule get_prop_put_prop[OF l f])
  show "fields_of (put_prop (h @ [CArr xs]) r k (VRef (length h))) (VRef r)
           = Some (set_field kvs k (VRef (length h)))"
    by (rule fields_put_prop[OF l f])
  have "put_prop (h @ [CArr xs]) r k (VRef (length h)) ! length h = CArr xs"
    using assms(1) by (auto simp: put_prop_def nth_append split: cell.splits)
  then show "isArray (put_prop (h @ [CArr xs]) r k (VRef (length h))) (VRef (length h))"
    and "elems (put_prop (h @ [CArr xs]) r k (VRef (length h))) (VRef (length h)) = xs"
    by (simp_all add: isArray_def elems_def cell_at_def)
qed

lemma merge_keys_array:
  assumes fr: "frames rec" and nf: "\<not> filtered opts k" and nm: "customMergers opts k = None"
    and sa: "sa < length h0" "sa \<noteq> r" and r: "r < length h0"
    and f0: "fields_of h0 (VRef r) = Some kvs0"
    and dist: "distinct ks" and kin: "k \<in> set ks"
    and arr: "isArray h0 (get_prop h0 (VRef sa) k)"
    and tin: "in_store h0 (get_prop h0 (VRef r) k)"
    and run: "merge_keys rec opts (VRef sa) r ks h0 = Inr h'"
  shows "array_outcome (arrayMergeStrategy opts) h0 (get_prop h0 (VRef r) k)
           (get_prop h0 (VRef sa) k) h' (get_prop h' (VRef r) k)"
proof -
  let ?tv = "get_prop h0 (VRef r) k" and ?sv = "get_prop h0 (VRef sa) k"
  obtain pre post where ks: "ks = pre @ k # post" and npre: "k \<notin> set pre" and npost: "k \<notin> set post"
    using kin dist by (metis distinct_append distinct.simps(2) not_distinct_conv_prefix split_list)
  obtain hp hk where pre: "merge_keys rec opts (VRef sa) r pre h0 = Inr hp"
    and step: "merge_key rec opts (VRef sa) r k hp = Inr hk"
    and post: "merge_keys rec opts (VRef sa) r post hk = Inr h'"
    using run unfolding ks merge_keys_append by (auto split: sum.splits)
  \<comment> \<open>the keys before \<open>k\<close>\<close>
  have fp: "frame_except {r} h0 hp" by (rule merge_keys_frame[OF fr pre])
  have rp: "r < length hp" using fp r by (simp add: frame_except_def)
  obtain kvsp where fkp: "fields_of hp (VRef r) = Some kvsp" and mp: "map_of kvsp k = map_of kvs0 k"
    using merge_keys_fields[OF fr pre r f0] npre by blast
  have tvp: "get_prop hp (VRef r) k = ?tv" using get_prop_map_of[OF f0 fkp mp] .
  have svp: "get_prop hp (VRef sa) k = ?sv" using get_prop_frame[OF fp sa(1)] sa(2) by simp
  have rnot: "\<not> isArray h0 (VRef r)" "\<not> isArray hp (VRef r)"
    using f0 fkp isArray_not_fields by fastforce+
  have sarr: "isArray hp ?sv \<and> elems hp ?sv = elems h0 ?sv"
  proof -
    have "in_store h0 ?sv" using arr isArray_in_store by (cases ?sv) (auto simp: in_store_def)
    moreover have "?sv \<noteq> VRef r" using arr rnot by auto
    ultimately show ?thesis using isArray_frame[OF fp, of ?sv] arr by auto
  qed
  have tarr: "isArray hp ?tv = isArray h0 ?tv \<and> elems hp ?tv = elems h0 ?tv"
  proof (cases "?tv = VRef r")
    case True
    then show ?thesis using rnot f0 fkp by (simp add: elems_def fields_of_def split: cell.splits)
  next
    case False
    then show ?thesis using isArray_frame[OF fp tin] by auto
  qed
  \<comment> \<open>the key \<open>k\<close> itself, and the keys after it\<close>
  have fpost: "frame_except {r} hk h'" by (rule merge_keys_frame[OF fr post])
  have stepeq: "merge_key rec opts (VRef sa) r k hp =
     (if isArray hp ?tv then
        (case arrayMergeStrategy opts of
           ArrReplace \<Rightarrow> Inr (put_prop hp r k ?sv)
         | ArrConcat \<Rightarrow>
             Inr (put_prop (hp @ [CArr (elems hp ?tv @ elems hp ?sv)]) r k (VRef (length hp)))
         | ArrUnique \<Rightarrow>
             Inr (put_prop (hp @ [CArr (new_Set (elems hp ?tv @ elems hp ?sv))]) r k
                    (VRef (length hp))))
      else Inr (put_prop hp r k ?sv))"
    by (rule merge_key_array[OF nf nm svp tvp]) (simp add: sarr)
  have keep: "get_prop h' (VRef r) k = get_prop hk (VRef r) k"
    if lk: "r < length hk" and fk: "fields_of hk (VRef r) = Some kvsk" for kvsk
  proof -
    obtain kvs' where "fields_of h' (VRef r) = Some kvs'" "map_of kvs' k = map_of kvsk k"
      using merge_keys_fields[OF fr post lk fk] npost by blast
    then show ?thesis using get_prop_map_of[OF fk] by simp
  qed
  have plain: "get_prop h' (VRef r) k = ?sv" if "hk = put_prop hp r k ?sv"
  proof -
    have "fields_of hk (VRef r) = Some (set_field kvsp k ?sv)"
      using that fields_put_prop[OF rp fkp] by simp
    moreover have "r < length hk" using that rp by simp
    ultimately have "get_prop h' (VRef r) k = get_prop hk (VRef r) k" using keep by blast
    then show ?thesis using that get_prop_put_prop[OF rp fkp] by simp
  qed
  have fresh: "get_prop h' (VRef r) k = VRef (length hp) \<and> isArray h' (VRef (length hp))
      \<and> elems h' (VRef (length hp)) = xs"
    if "hk = put_prop (hp @ [CArr xs]) r k (VRef (length hp))" for xs
  proof -
    note n = put_prop_new_array[OF rp fkp, of xs k, folded that]
    have lk: "r < length hk" "length hp < length hk" using that rp by simp_all
    have "get_prop h' (VRef r) k = get_prop hk (VRef r) k" using keep[OF lk(1) n(4)] .
    moreover have "isArray h' (VRef (length hp)) = isArray hk (VRef (length hp))
        \<and> elems h' (VRef (length hp)) = elems hk (VRef (length hp))"
      using isArray_frame[OF fpost, of "VRef (length hp)"] lk rp by (auto simp: in_store_def)
    ultimately show ?thesis using n by simp
  qed
  show ?thesis
  proof (cases "isArray h0 ?tv")
    case False
    then have "hk = put_prop hp r k ?sv" using stepeq step tarr by simp
    then show ?thesis using plain False by (simp add: array_outcome_def)
  next
    case True
    show ?thesis
    proof (cases "arrayMergeStrategy opts")
      case ArrReplace
      then have "hk = put_prop hp r k ?sv" using stepeq step tarr True by simp
      then show ?thesis using plain True ArrReplace by (simp add: array_outcome_def)
    next
      case ArrConcat
      then have "hk = put_prop (hp @ [CArr (elems h0 ?tv @ elems h0 ?sv)]) r k (VRef (length hp))"
        using stepeq step tarr sarr True by simp
      then show ?thesis using fresh True ArrConcat by (simp add: array_outcome_def)
    next
      case ArrUnique
      then have "hk = put_prop (hp @ [CArr (new_Set (elems h0 ?tv @ elems h0 ?sv))]) r k
          (VRef (length hp))"
        using stepeq step tarr sarr True by simp
      then show ?thesis using fresh True ArrUnique by (simp add: array_outcome_def)
    qed
  qed
qed

lemma isArray_alloc_obj:
  "isArray (h @ [CObj kvs]) v = isArray h v" "elems (h @ [CObj kvs]) v = elems h v"
  by (cases v; auto simp: isArray_def elems_def cell_at_def nth_append)+

lemma closed_get_prop:
  assumes "closed h" and "is_document h v"
  shows "in_store h (get_prop h v k)"
proof -
  obtain a where v: "v = VRef a" and a: "a < length h"
    using assms(2) is_document_ref by blast
  obtain kvs where f: "fields_of h (VRef a) = Some kvs"
    using assms(2) v by (auto simp: is_document_def)
  show ?thesis
  proof (cases "map_of kvs k")
    case None
    then have "get_prop h v k = inherited k" using f v by (simp add: get_prop_def lookup_def)
    then show ?thesis by (simp add: in_store_def inherited_def)
  next
    case (Some x)
    then have "get_prop h v k = x" using f v by (simp add: get_prop_def lookup_def)
    moreover have "(k, x) \<in> set kvs" using Some by (rule map_of_SomeD)
    ultimately show ?thesis using closed_field_in_store[OF assms(1) a f] by simp
  qed
qed

lemma deepMerge_array:
  assumes st: "strategy opts \<noteq> Shallow" "strategy opts \<noteq> Replace"
    and nf: "\<not> filtered opts k" and nm: "customMergers opts k = None"
    and fs: "fields_of h (VRef sa) = Some sf" and dist: "distinct (map fst sf)"
    and arr: "isArray h (get_prop h (VRef sa) k)"
    and ta: "ta < length h"
    and tin: "in_store h (get_prop h (VRef ta) k)"
    and dm: "deepMerge n opts h (VRef ta) (VRef sa) = Inr (h', v)"
  shows "array_outcome (arrayMergeStrategy opts) h (get_prop h (VRef ta) k)
           (get_prop h (VRef sa) k) h' (get_prop h' v k)"
proof (cases n)
  case 0
  then show ?thesis using dm by simp
next
  case (Suc m)
  from deepMerge_deep_Inr[OF st dm[unfolded Suc]] fs
  obtain tf where ft: "fields_of h (VRef ta) = Some tf"
    and mk: "merge_keys (deepMerge m opts) opts (VRef sa) (length h) (map fst sf) (h @ [CObj tf])
               = Inr h'"
    and v: "v = VRef (length h)"
    by auto
  have "\<exists>b. get_prop h (VRef sa) k = VRef b"
    using arr by (cases "get_prop h (VRef sa) k") (auto simp: isArray_def)
  then have own: "sa < length h \<and> map_of sf k = Some (get_prop h (VRef sa) k)"
    using get_prop_own[OF _ fs] by blast
  then have sa: "sa < length h" and kin: "k \<in> set (map fst sf)"
    by (auto dest: map_of_SomeD intro: rev_image_eqI)
  let ?h1 = "h @ [CObj tf]"
  have src: "get_prop ?h1 (VRef sa) k = get_prop h (VRef sa) k"
    using sa by (simp add: get_prop_def fields_of_alloc_old)
  have tgt: "get_prop ?h1 (VRef (length h)) k = get_prop h (VRef ta) k"
    using ft by (simp add: get_prop_def)
  have "array_outcome (arrayMergeStrategy opts) ?h1 (get_prop ?h1 (VRef (length h)) k)
           (get_prop ?h1 (VRef sa) k) h' (get_prop h' (VRef (length h)) k)"
  proof (rule merge_keys_array[OF deepMerge_frames nf nm _ _ _ _ dist kin _ _ mk])
    show "sa < length ?h1" using sa by simp
    show "sa \<noteq> length h" using sa by simp
    show "length h < length ?h1" by simp
    show "fields_of ?h1 (VRef (length h)) = Some tf" by simp
    show "isArray ?h1 (get_prop ?h1 (VRef sa) k)" using arr src by (simp add: isArray_alloc_obj)
    show "in_store ?h1 (get_prop ?h1 (VRef (length h)) k)"
      using tin tgt by (cases "get_prop h (VRef ta) k") (auto simp: in_store_def)
  qed
  then show ?thesis
    unfolding src tgt v
    by (auto simp: array_outcome_def isArray_alloc_obj split: ArrayMergeStrategy.splits if_splits)
qed

lemma items_store_facts:
  "get_prop items_store (VRef 3) ''items'' = VRef (Suc 0)"
  "get_prop items_store (VRef 2) ''items'' = VRef 0"
  "elems items_store (VRef 0) = [VNum 1, VNum 2]"
  "elems items_store (VRef (Suc 0)) = [VNum 2, VNum 3]"
  "isArray items_store (VRef 0)"
  "isArray items_store (VRef (Suc 0))"
  "fields_of items_store (VRef 3) = Some [(''items'', VRef (Suc 0))]"
  "fields_of items_store (VRef (Suc 0)) = None"
  "closed items_store"
  "is_document items_store (VRef 2)"
  "is_document items_store (VRef 3)"
  by (simp_all add: get_prop_def fields_of_def cell_at_def lookup_def closed_def cell_vals_def
      in_store_def is_document_def items_store_def isArray_def elems_def eval_nat_numeral)

lemma items_store_mergers:
  "customMergers opts ''items'' = None \<Longrightarrow> mergers_total_on opts items_store"
  by (simp add: mergers_total_on_def store_keys_def items_store_def)

lemma nested_store_facts:
  "closed nested_store"
  "is_document nested_store (VRef 1)"
  "is_document nested_store (VRef 2)"
  "nesting_le (Suc 0) nested_store (VRef 2)"
  "fields_of nested_store (VRef 1) = Some [(''db'', VRef 0), (''b'', VNum 2)]"
  "store_keys nested_store = {''host'', ''db'', ''b'', ''u''}"
  "length nested_store = 3"
  by (auto simp: fields_of_def cell_at_def closed_def cell_vals_def in_store_def is_document_def
      nested_store_def store_keys_def eval_nat_numeral)

lemma inherited_merger_None:
  "k \<noteq> ''__proto__'' \<Longrightarrow> k \<notin> set object_prototype_methods \<Longrightarrow> inherited_merger k = None"
  by (simp add: inherited_merger_def)

lemma default_mergers_nested_store: "mergers_total_on default_options nested_store"
  by (simp add: mergers_total_on_def nested_store_facts default_options_def inherited_merger_def
      object_prototype_methods_def)

section \<open>The merge engine: the claims\<close>

text \<open>
  Right bias where the lookup \<^verbatim>\<open>customMergers[k]\<close> is falsy: under the deep strategy, for a key
  \<open>k\<close> other than \<^verbatim>\<open>__proto__\<close> that is not filtered by \<^verbatim>\<open>skipKeys\<close> or \<^verbatim>\<open>onlyKeys\<close>, if
  \<^verbatim>\<open>source[k]\<close> is a string, a number, a boolean or an explicit \<^verbatim>\<open>null\<close>, then merging two
  documents returns a document whose value at \<open>k\<close> is \<^verbatim>\<open>source[k]\<close>, whatever \<^verbatim>\<open>target[k]\<close> is.
\<close>

lemma deepMerge_right_biased:
  assumes "strategy opts = Deep" and "customMergers opts k = None" and "\<not> filtered opts k"
    and "is_scalar (get_prop h source k)" and "k \<noteq> ''__proto__''"
    and "mergers_total_on opts h" and "closed h" and "is_document h target"
    and "is_document h source" and "nesting_le n h source"
  shows "\<exists>h' v. deepMerge n opts h target source = Inr (h', v)
           \<and> get_prop h' v k = get_prop h source k"
proof -
  obtain h' v where r: "deepMerge n opts h target source = Inr (h', v)"
    using deepMerge_total[OF assms(6-10)] by blast
  obtain sa where s: "source = VRef sa" using is_document_ref[OF assms(9)] by blast
  have "get_prop h' v k = get_prop h source k"
    using deepMerge_scalar[OF _ _ assms(3,2) _ r[unfolded s]] assms(1,4) s by simp
  then show ?thesis using r by blast
qed

text \<open>
  C1 fails on the code. The claim is for default options, under which no custom merger is
  registered; but the default \<^verbatim>\<open>customMergers = {}\<close> is a plain object, so for a key that names
  a property of \<^verbatim>\<open>Object.prototype\<close> the test \<^verbatim>\<open>if (customMergers[key])\<close> finds the inherited
  function and the loop calls it as the merger. With target \<^verbatim>\<open>{toString: 'old'}\<close> and source
  \<^verbatim>\<open>{toString: 7}\<close>, the key is present in both, the source value is a number and nothing is
  filtered, and the merge under default options returns \<^verbatim>\<open>{toString: '[object Object]'}\<close>:
  the value at the key is not the source's 7.
\<close>

theorem C1_inherited_merger_called:
  "deepMerge (Suc 0) default_options
       [CObj [(''toString'', VStr ''old'')], CObj [(''toString'', VNum 7)]] (VRef 0) (VRef 1)
     = Inr ([CObj [(''toString'', VStr ''old'')], CObj [(''toString'', VNum 7)],
             CObj [(''toString'', VStr ''[object Object]'')]], VRef 2)
   \<and> get_prop [CObj [(''toString'', VStr ''old'')], CObj [(''toString'', VNum 7)]] (VRef 1)
         ''toString'' = VNum 7
   \<and> get_prop [CObj [(''toString'', VStr ''old'')], CObj [(''toString'', VNum 7)],
               CObj [(''toString'', VStr ''[object Object]'')]] (VRef 2) ''toString''
       = VStr ''[object Object]''
   \<and> skipKeys default_options = [] \<and> onlyKeys default_options = None
   \<and> strategy default_options = Deep"
  by (simp add: default_options_def inherited_merger_def object_prototype_methods_def
      native_call_def get_prop_def fields_of_def cell_at_def lookup_def merge_key_def alloc_def
      put_prop_def isArray_def Let_def eval_nat_numeral)

text \<open>
  C2, as stated, fails: it quantifies over every key whose source value is a sequence, under
  the deep strategy alone. With \<^verbatim>\<open>skipKeys: ['items']\<close> and \<^verbatim>\<open>arrayMergeStrategy: 'concat'\<close>,
  \<^verbatim>\<open>target.items = [1, 2]\<close> and \<^verbatim>\<open>source.items = [2, 3]\<close> merge to \<^verbatim>\<open>items = [1, 2]\<close>: the key
  is skipped before the array branch is reached. And a key for which \<^verbatim>\<open>customMergers[key]\<close> is
  truthy goes to that merger, not to the array branch; under the default \<^verbatim>\<open>customMergers = {}\<close>
  that is so for the key \<^verbatim>\<open>constructor\<close>, where the lookup finds the inherited function
  \<^verbatim>\<open>Object\<close>: with \<^verbatim>\<open>concat\<close>, \<^verbatim>\<open>target.constructor = [1, 2]\<close> and \<^verbatim>\<open>source.constructor = [2, 3]\<close>
  merge to target's own sequence \<^verbatim>\<open>[1, 2]\<close>.
\<close>

theorem C2_array_policy_counterexample:
  "deepMerge (Suc 0) (default_options\<lparr>arrayMergeStrategy := ArrConcat, skipKeys := [''items'']\<rparr>)
       items_store (VRef 2) (VRef 3)
     = Inr (items_store @ [CObj [(''items'', VRef 0)]], VRef 4)
   \<and> isArray items_store (get_prop items_store (VRef 3) ''items'')
   \<and> elems (items_store @ [CObj [(''items'', VRef 0)]])
        (get_prop (items_store @ [CObj [(''items'', VRef 0)]]) (VRef 4) ''items'')
       = [VNum 1, VNum 2]
   \<and> deepMerge (Suc 0) (default_options\<lparr>arrayMergeStrategy := ArrConcat\<rparr>)
         constructor_store (VRef 2) (VRef 3)
       = Inr (constructor_store @ [CObj [(''constructor'', VRef 0)]], VRef 4)
   \<and> isArray constructor_store (get_prop constructor_store (VRef 3) ''constructor'')
   \<and> elems (constructor_store @ [CObj [(''constructor'', VRef 0)]])
        (get_prop (constructor_store @ [CObj [(''constructor'', VRef 0)]]) (VRef 4)
           ''constructor'')
       = [VNum 1, VNum 2]"
  by (simp add: default_options_def inherited_merger_def object_prototype_methods_def
      native_call_def to_object_def get_prop_def fields_of_def cell_at_def lookup_def
      items_store_def constructor_store_def merge_key_def alloc_def put_prop_def isArray_def
      elems_def Let_def eval_nat_numeral)

text \<open>
  C2, amended: under the deep strategy, for a source that has no key named \<^verbatim>\<open>__proto__\<close> and a
  key \<open>k\<close> that is not filtered by \<^verbatim>\<open>skipKeys\<close> or \<^verbatim>\<open>onlyKeys\<close> and for which
  \<^verbatim>\<open>customMergers[k]\<close> is falsy (no merger is registered for it and it names no property that
  \<^verbatim>\<open>customMergers\<close> inherits), and whose source value is a sequence, the merge returns a
  document where: if \<^verbatim>\<open>target[k]\<close> is a sequence too, the value at \<open>k\<close> is
  the source's sequence itself under \<^verbatim>\<open>replace\<close>, a new sequence of target's elements followed
  by source's under \<^verbatim>\<open>concat\<close>, and under \<^verbatim>\<open>unique\<close> that concatenation with only the first
  occurrence of every element kept (elements compared as \<^verbatim>\<open>Set\<close> does: primitives by value,
  objects and arrays by identity); if \<^verbatim>\<open>target[k]\<close> is not a sequence, the value at \<open>k\<close> is
  the source's sequence itself. The source's sequence keeps its elements.
\<close>

theorem C2_array_policy:
  assumes "strategy opts = Deep" and "customMergers opts k = None" and "\<not> filtered opts k"
    and "isArray h (get_prop h source k)"
    and "fields_of h source = Some sf" and "distinct (map fst sf)"
    and "mergers_total_on opts h" and "closed h" and "is_document h target"
    and "is_document h source" and "nesting_le n h source"
    and "''__proto__'' \<notin> fst ` set sf"
  shows "\<exists>h' v. deepMerge n opts h target source = Inr (h', v)
           \<and> elems h' (get_prop h source k) = elems h (get_prop h source k)
           \<and> (if isArray h (get_prop h target k) then
                (case arrayMergeStrategy opts of
                   ArrReplace \<Rightarrow> get_prop h' v k = get_prop h source k
                 | ArrConcat \<Rightarrow>
                     isArray h' (get_prop h' v k)
                     \<and> elems h' (get_prop h' v k)
                         = elems h (get_prop h target k) @ elems h (get_prop h source k)
                 | ArrUnique \<Rightarrow>
                     isArray h' (get_prop h' v k)
                     \<and> elems h' (get_prop h' v k)
                         = rev (remdups (rev (elems h (get_prop h target k)
                                               @ elems h (get_prop h source k)))))
              else get_prop h' v k = get_prop h source k)"
proof -
  obtain h' v where r: "deepMerge n opts h target source = Inr (h', v)"
    using deepMerge_total[OF assms(7-11)] by blast
  obtain ta sa where t: "target = VRef ta" "ta < length h" and s: "source = VRef sa"
    using is_document_ref assms(9,10) by blast
  have st: "strategy opts \<noteq> Shallow" "strategy opts \<noteq> Replace"
    using assms(1) by simp_all
  have tin: "in_store h (get_prop h (VRef ta) k)"
    using closed_get_prop[OF assms(8,9)] t by simp
  have sin: "in_store h (get_prop h source k)" by (rule closed_get_prop[OF assms(8,10)])
  have fr: "frame_except {} h h'"
    using deepMerge_frames[of n opts] r unfolding frames_def by blast
  have keep: "elems h' (get_prop h source k) = elems h (get_prop h source k)"
    using isArray_frame[OF fr sin] by simp
  have "array_outcome (arrayMergeStrategy opts) h (get_prop h (VRef ta) k)
           (get_prop h (VRef sa) k) h' (get_prop h' v k)"
    by (rule deepMerge_array[OF st assms(3,2) assms(5)[unfolded s] assms(6)
          assms(4)[unfolded s] t(2) tin r[unfolded t s]])
  then show ?thesis
    using r keep t s
    by (auto simp: array_outcome_def new_Set_first_occurrences split: ArrayMergeStrategy.splits)
qed

theorem C2_array_policy_witness:
  "(\<exists>h' v. deepMerge (Suc 0) (default_options\<lparr>arrayMergeStrategy := ArrConcat\<rparr>)
              items_store (VRef 2) (VRef 3) = Inr (h', v)
       \<and> elems h' (get_prop h' v ''items'') = [VNum 1, VNum 2, VNum 2, VNum 3])
   \<and> (\<exists>h' v. deepMerge (Suc 0) (default_options\<lparr>arrayMergeStrategy := ArrUnique\<rparr>)
              items_store (VRef 2) (VRef 3) = Inr (h', v)
       \<and> elems h' (get_prop h' v ''items'') = [VNum 1, VNum 2, VNum 3])
   \<and> (\<exists>h' v. deepMerge (Suc 0) default_options items_store (VRef 2) (VRef 3) = Inr (h', v)
       \<and> get_prop h' v ''items'' = VRef 1 \<and> elems h' (VRef 1) = [VNum 2, VNum 3])
   \<and> (\<exists>h' v. deepMerge (Suc 0) (bare_options\<lparr>arrayMergeStrategy := ArrConcat\<rparr>)
              constructor_store (VRef 2) (VRef 3) = Inr (h', v)
       \<and> elems h' (get_prop h' v ''constructor'') = [VNum 1, VNum 2, VNum 2, VNum 3])"
proof -
  have nm: "inherited_merger ''items'' = None"
    by (simp add: inherited_merger_def object_prototype_methods_def)
  have cs: "get_prop constructor_store (VRef 3) ''constructor'' = VRef (Suc 0)"
    "get_prop constructor_store (VRef 2) ''constructor'' = VRef 0"
    "elems constructor_store (VRef 0) = [VNum 1, VNum 2]"
    "elems constructor_store (VRef (Suc 0)) = [VNum 2, VNum 3]"
    "isArray constructor_store (VRef 0)"
    "isArray constructor_store (VRef (Suc 0))"
    "fields_of constructor_store (VRef 3) = Some [(''constructor'', VRef (Suc 0))]"
    "closed constructor_store"
    "is_document constructor_store (VRef 2)"
    "is_document constructor_store (VRef 3)"
    "fields_of constructor_store (VRef (Suc 0)) = None"
    by (simp_all add: get_prop_def fields_of_def cell_at_def lookup_def closed_def cell_vals_def
        in_store_def is_document_def constructor_store_def isArray_def elems_def
        eval_nat_numeral)
  have bo: "strategy (bare_options\<lparr>arrayMergeStrategy := ArrConcat\<rparr>) = Deep"
    "customMergers (bare_options\<lparr>arrayMergeStrategy := ArrConcat\<rparr>) ''constructor'' = None"
    "\<not> filtered (bare_options\<lparr>arrayMergeStrategy := ArrConcat\<rparr>) ''constructor''"
    "mergers_total_on (bare_options\<lparr>arrayMergeStrategy := ArrConcat\<rparr>) constructor_store"
    "arrayMergeStrategy (bare_options\<lparr>arrayMergeStrategy := ArrConcat\<rparr>) = ArrConcat"
    "customMergers bare_options ''constructor'' = None"
    by (simp_all add: bare_options_def default_options_def filtered_def mergers_total_on_def)
  have 4: "\<exists>h' v. deepMerge (Suc 0) (bare_options\<lparr>arrayMergeStrategy := ArrConcat\<rparr>)
              constructor_store (VRef 2) (VRef 3) = Inr (h', v)
       \<and> elems h' (get_prop h' v ''constructor'') = [VNum 1, VNum 2, VNum 2, VNum 3]"
    using C2_array_policy [of "bare_options\<lparr>arrayMergeStrategy := ArrConcat\<rparr>" "''constructor''"
        constructor_store "VRef 3" "[(''constructor'', VRef 1)]" "VRef 2" "Suc 0"]
    by (auto simp: cs bo simp del: deepMerge.simps)
  have 1: "\<exists>h' v. deepMerge (Suc 0) (default_options\<lparr>arrayMergeStrategy := ArrConcat\<rparr>)
              items_store (VRef 2) (VRef 3) = Inr (h', v)
       \<and> elems h' (get_prop h' v ''items'') = [VNum 1, VNum 2, VNum 2, VNum 3]"
    using C2_array_policy [of "default_options\<lparr>arrayMergeStrategy := ArrConcat\<rparr>" "''items''"
        items_store "VRef 3" "[(''items'', VRef 1)]" "VRef 2" "Suc 0"]
    by (auto simp: items_store_facts items_store_mergers default_options_def filtered_def nm
        simp del: deepMerge.simps)
  have 2: "\<exists>h' v. deepMerge (Suc 0) (default_options\<lparr>arrayMergeStrategy := ArrUnique\<rparr>)
              items_store (VRef 2) (VRef 3) = Inr (h', v)
       \<and> elems h' (get_prop h' v ''items'') = [VNum 1, VNum 2, VNum 3]"
    using C2_array_policy [of "default_options\<lparr>arrayMergeStrategy := ArrUnique\<rparr>" "''items''"
        items_store "VRef 3" "[(''items'', VRef 1)]" "VRef 2" "Suc 0"]
    by (auto simp: items_store_facts items_store_mergers default_options_def filtered_def nm
        simp del: deepMerge.simps)
  have 3: "\<exists>h' v. deepMerge (Suc 0) default_options items_store (VRef 2) (VRef 3) = Inr (h', v)
       \<and> get_prop h' v ''items'' = VRef 1 \<and> elems h' (VRef 1) = [VNum 2, VNum 3]"
    using C2_array_policy [of default_options "''items''"
        items_store "VRef 3" "[(''items'', VRef 1)]" "VRef 2" "Suc 0"]
    by (auto simp: items_store_facts items_store_mergers default_options_def filtered_def nm
        simp del: deepMerge.simps)
  show ?thesis using 1 2 3 4 by blast
qed

text \<open>
  C10, as stated, fails: it quantifies over every key under the deep strategy. With
  \<^verbatim>\<open>skipKeys: ['db']\<close>, a target whose \<^verbatim>\<open>db\<close> is a mapping and a source whose \<^verbatim>\<open>db\<close> is
  \<^verbatim>\<open>null\<close> merge to a document whose \<^verbatim>\<open>db\<close> is still target's mapping. And a key for which
  \<^verbatim>\<open>customMergers[key]\<close> is truthy goes to that merger: under the default
  \<^verbatim>\<open>customMergers = {}\<close>, a target whose \<^verbatim>\<open>constructor\<close> is a mapping and a source whose
  \<^verbatim>\<open>constructor\<close> is \<^verbatim>\<open>null\<close> merge to a document whose \<^verbatim>\<open>constructor\<close> is target's mapping,
  which the inherited function \<^verbatim>\<open>Object\<close> returns.
\<close>

theorem C10_null_counterexample:
  "deepMerge (Suc 0) (default_options\<lparr>skipKeys := [''db'']\<rparr>) nested_store (VRef 1) (VRef 2)
     = Inr (nested_store @ [CObj [(''db'', VRef 0), (''b'', VNum 9)]], VRef 3)
   \<and> get_prop nested_store (VRef 2) ''db'' = VNull
   \<and> get_prop (nested_store @ [CObj [(''db'', VRef 0), (''b'', VNum 9)]]) (VRef 3) ''db'' = VRef 0
   \<and> deepMerge (Suc 0) default_options
         [CObj [(''a'', VNum 1)], CObj [(''constructor'', VRef 0)], CObj [(''constructor'', VNull)]]
         (VRef 1) (VRef 2)
       = Inr ([CObj [(''a'', VNum 1)], CObj [(''constructor'', VRef 0)],
               CObj [(''constructor'', VNull)], CObj [(''constructor'', VRef 0)]], VRef 3)"
  by (simp add: default_options_def inherited_merger_def object_prototype_methods_def
      native_call_def to_object_def get_prop_def fields_of_def cell_at_def lookup_def
      inherited_def nested_store_def merge_key_def alloc_def put_prop_def isArray_def Let_def
      eval_nat_numeral)

text \<open>
  C10, amended: under the deep strategy, for a source that has no key named \<^verbatim>\<open>__proto__\<close> and
  a key \<open>k\<close> that is not filtered by \<^verbatim>\<open>skipKeys\<close> or \<^verbatim>\<open>onlyKeys\<close> and for which
  \<^verbatim>\<open>customMergers[k]\<close> is falsy (no merger is registered for it and it names no property that
  \<^verbatim>\<open>customMergers\<close> inherits), the merge returns a document whose value at \<open>k\<close> is \<^verbatim>\<open>null\<close> when \<^verbatim>\<open>source[k]\<close> is an explicit \<^verbatim>\<open>null\<close>, whatever \<^verbatim>\<open>target[k]\<close> is
  (a mapping too), and target's value when \<^verbatim>\<open>source[k]\<close> is \<^verbatim>\<open>undefined\<close>. (In the example that
  follows the stack has room for the outer call only, so no recursive merge was attempted.)
\<close>

theorem C10_null_overwrites:
  assumes "strategy opts = Deep" and "customMergers opts k = None" and "\<not> filtered opts k"
    and "mergers_total_on opts h" and "closed h" and "is_document h target"
    and "is_document h source" and "nesting_le n h source"
    and "fields_of h source = Some sf" and "''__proto__'' \<notin> fst ` set sf"
  shows "\<exists>h' v. deepMerge n opts h target source = Inr (h', v)
           \<and> (get_prop h source k = VNull \<longrightarrow> get_prop h' v k = VNull)
           \<and> (get_prop h source k = VUndefined \<longrightarrow> get_prop h' v k = get_prop h target k)"
proof -
  obtain h' v where r: "deepMerge n opts h target source = Inr (h', v)"
    using deepMerge_total[OF assms(4-8)] by blast
  obtain ta sa where t: "target = VRef ta" and s: "source = VRef sa"
    using is_document_ref assms(6,7) by blast
  have st: "strategy opts \<noteq> Shallow" "strategy opts \<noteq> Replace"
    using assms(1) by simp_all
  have "get_prop h' v k = VNull" if "get_prop h source k = VNull"
    using deepMerge_scalar[OF st assms(3,2) _ r[unfolded s]] that s by simp
  moreover have "get_prop h' v k = get_prop h target k" if "get_prop h source k = VUndefined"
  proof -
    have vr: "v = VRef (length h)"
      using deepMerge_result_fresh[OF _ r] st by simp
    from deepMerge_key_skipped[OF st _ r, of k] that
    obtain tf rf where "fields_of h (VRef ta) = Some tf" "fields_of h' (VRef (length h)) = Some rf"
      "map_of rf k = map_of tf k"
      using t vr by auto
    then show ?thesis unfolding t vr by (rule get_prop_map_of)
  qed
  ultimately show ?thesis using r by blast
qed

theorem C10_null_overwrites_witness:
  "(\<exists>h' v. deepMerge (Suc 0) default_options nested_store (VRef 1) (VRef 2) = Inr (h', v)
        \<and> get_prop h' v ''db'' = VNull)
   \<and> (\<exists>h' v. deepMerge (Suc 0) default_options nested_store (VRef 1) (VRef 2) = Inr (h', v)
        \<and> get_prop h' v ''u'' = VUndefined)"
proof -
  have g: "get_prop nested_store (VRef 1) ''u'' = VUndefined"
    "get_prop nested_store (VRef 2) ''u'' = VUndefined"
    "get_prop nested_store (VRef 2) ''db'' = VNull"
    by (simp_all add: get_prop_def fields_of_def cell_at_def lookup_def inherited_def
        object_prototype_methods_def nested_store_def eval_nat_numeral)
  have d: "strategy default_options = Deep" by (simp add: default_options_def)
  have nm: "customMergers default_options ''db'' = None" "customMergers default_options ''u'' = None"
    by (simp_all add: default_options_def inherited_merger_def object_prototype_methods_def)
  have nf: "\<not> filtered default_options kk" for kk
    by (simp add: filtered_def default_options_def)
  have sf: "fields_of nested_store (VRef 2)
      = Some [(''db'', VNull), (''b'', VNum 9), (''u'', VUndefined)]"
    by (simp add: fields_of_def cell_at_def nested_store_def)
  have np: "''__proto__'' \<notin> fst ` set [(''db'', VNull), (''b'', VNum 9), (''u'', VUndefined)]"
    by simp
  note w = default_mergers_nested_store nested_store_facts(1-4) sf np
  show ?thesis
    using C10_null_overwrites [OF d nm(1) nf w] C10_null_overwrites [OF d nm(2) nf w] g
    by auto
qed

text \<open>
  C3. Under the deep strategy, for a key \<open>k\<close> in \<^verbatim>\<open>skipKeys\<close>, or outside \<^verbatim>\<open>onlyKeys\<close> when
  that is defined, the merge returns a document that has at \<open>k\<close> exactly what target has
  there (target's value, or nothing when target has none); and the call returns the same
  store and document whatever merger is registered for \<open>k\<close>, one that throws included: the
  merger is never invoked.
\<close>

theorem C3_filtered_key_skipped:
  assumes "strategy opts = Deep" and "filtered opts k"
    and "mergers_total_on opts h" and "closed h" and "is_document h target"
    and "is_document h source" and "nesting_le n h source"
  shows "\<exists>h' v tf rf. deepMerge n opts h target source = Inr (h', v)
           \<and> fields_of h target = Some tf \<and> fields_of h' v = Some rf \<and> map_of rf k = map_of tf k
           \<and> (\<forall>m. deepMerge n (opts\<lparr>customMergers := (customMergers opts)(k := m)\<rparr>) h target source
                  = Inr (h', v))"
proof -
  obtain h' v where r: "deepMerge n opts h target source = Inr (h', v)"
    using deepMerge_total[OF assms(3-7)] by blast
  have st: "strategy opts \<noteq> Shallow" "strategy opts \<noteq> Replace"
    using assms(1) by simp_all
  from deepMerge_key_skipped[OF st _ r, of k] assms(2)
  obtain tf rf where "fields_of h target = Some tf" "fields_of h' v = Some rf"
    "map_of rf k = map_of tf k"
    by blast
  then show ?thesis
    using r deepMerge_indep[OF assms(2), of n _ h target source] by auto
qed

theorem C3_filtered_key_skipped_witness:
  "\<exists>h' v. deepMerge (Suc 0)
       (default_options\<lparr>skipKeys := [''b''],
          customMergers := inherited_merger(''b'' := Some (\<lambda>h t s. Inl (Thrown ''merger called'')))\<rparr>)
       nested_store (VRef 1) (VRef 2) = Inr (h', v)
     \<and> get_prop h' v ''b'' = VNum 2"
proof -
  let ?opts = "default_options\<lparr>skipKeys := [''b'']\<rparr>"
  have mt: "mergers_total_on ?opts nested_store"
    using default_mergers_nested_store by (simp add: mergers_total_on_def)
  have d: "strategy ?opts = Deep" by (simp add: default_options_def)
  have f: "filtered ?opts ''b''" by (simp add: filtered_def)
  from C3_filtered_key_skipped [OF d f mt nested_store_facts(1-4)]
  obtain h' v tf rf where 0: "deepMerge (Suc 0) ?opts nested_store (VRef 1) (VRef 2) = Inr (h', v)"
    and 1: "fields_of nested_store (VRef 1) = Some tf"
    "fields_of h' v = Some rf" "map_of rf ''b'' = map_of tf ''b''"
    and 2: "\<forall>m. deepMerge (Suc 0) (?opts\<lparr>customMergers := (customMergers ?opts)(''b'' := m)\<rparr>)
                 nested_store (VRef 1) (VRef 2) = Inr (h', v)"
    by blast
  have "v = VRef (length nested_store)"
    using deepMerge_result_fresh[OF _ 0] by (simp add: default_options_def)
  then have "get_prop h' v ''b'' = VNum 2"
    using 1 nested_store_facts(5) by (auto simp: get_prop_def lookup_def)
  moreover have "deepMerge (Suc 0)
       (default_options\<lparr>skipKeys := [''b''],
          customMergers := inherited_merger(''b'' := Some (\<lambda>h t s. Inl (Thrown ''merger called'')))\<rparr>)
       nested_store (VRef 1) (VRef 2) = Inr (h', v)"
    using 2[rule_format, of "Some (\<lambda>h t s. Inl (Thrown ''merger called''))"]
    by (simp add: default_options_def)
  ultimately show ?thesis by blast
qed

text \<open>
  C8, as stated, fails for the strategy \<^verbatim>\<open>replace\<close>: the call returns \<^verbatim>\<open>source\<close> itself (the
  reference it was given) and constructs nothing.
\<close>

theorem C8_replace_returns_source_counterexample:
  "deepMerge (Suc 0) (default_options\<lparr>strategy := Replace\<rparr>) nested_store (VRef 1) (VRef 2)
     = Inr (nested_store, VRef 2)"
  by (simp add: default_options_def)

text \<open>
  C8, amended: for every target, source and options whose custom mergers only create
  objects, the merge returns, and the store it returns is the store it was called on
  followed by new objects, so both input documents (and everything else) are as they were.
  Under the strategies other than \<^verbatim>\<open>replace\<close> (\<^verbatim>\<open>shallow\<close> included) the document returned is
  a newly created object, which is neither input; under \<^verbatim>\<open>replace\<close> it is \<^verbatim>\<open>source\<close> itself
  and nothing is created.
\<close>

theorem C8_merge_frame:
  assumes "mergers_total_on opts h" and "closed h" and "is_document h target"
    and "is_document h source" and "nesting_le n h source"
  shows "\<exists>h' v. deepMerge n opts h target source = Inr (h', v)
           \<and> take (length h) h' = h
           \<and> (if strategy opts = Replace then v = source \<and> h' = h
              else v = VRef (length h) \<and> length h < length h' \<and> is_document h' v
                   \<and> v \<noteq> target \<and> v \<noteq> source)"
proof -
  obtain h' v where r: "deepMerge n opts h target source = Inr (h', v)"
    using deepMerge_total[OF assms] by blast
  have p: "take (length h) h' = h" by (rule deepMerge_prefix[OF r])
  show ?thesis
  proof (cases "strategy opts = Replace")
    case True
    then have "v = source \<and> h' = h" using r by (cases n) auto
    then show ?thesis using r p True by auto
  next
    case False
    from deepMerge_result_fresh[OF False r]
    have f: "v = VRef (length h)" "length h < length h'" "fields_of h' v \<noteq> None"
      by auto
    have "is_document h' v" using f by (auto simp: is_document_def)
    moreover have "v \<noteq> target" "v \<noteq> source"
      using f(1) assms(3,4) by (auto simp: is_document_def)
    ultimately show ?thesis using r p False f by auto
  qed
qed

theorem C8_merge_frame_witness:
  "(\<exists>h' v. deepMerge (Suc 0) default_options nested_store (VRef 1) (VRef 2) = Inr (h', v)
       \<and> take (length nested_store) h' = nested_store \<and> v = VRef (length nested_store)
       \<and> length nested_store < length h')
   \<and> (\<exists>h' v. deepMerge (Suc 0) (default_options\<lparr>strategy := Shallow\<rparr>) nested_store (VRef 1) (VRef 2)
         = Inr (h', v)
       \<and> take (length nested_store) h' = nested_store \<and> v = VRef (length nested_store)
       \<and> length nested_store < length h')"
proof -
  have mt: "mergers_total_on (default_options\<lparr>strategy := Shallow\<rparr>) nested_store"
    using default_mergers_nested_store by (simp add: mergers_total_on_def)
  have s: "strategy default_options \<noteq> Replace"
    "strategy (default_options\<lparr>strategy := Shallow\<rparr>) \<noteq> Replace"
    by (simp_all add: default_options_def)
  show ?thesis
    using C8_merge_frame [OF default_mergers_nested_store nested_store_facts(1-4)]
      C8_merge_frame [OF mt nested_store_facts(1-4)] s
    by auto
qed

section \<open>The validation engine: frame and loop\<close>

lemma transformed_frame: "transformed rule h value = (h1, value1) \<Longrightarrow> frame_except {} h h1"
  by (auto simp: transformed_def split: option.splits prod.splits)

lemma check_value_frame:
  "check_value rule h errs value pth = Inl (h', errs', out)
     \<Longrightarrow> frame_except {} h h' \<and> (\<exists>es. errs' = errs @ es)"
  "check_value rule h errs value pth = Inr (h1, value1) \<Longrightarrow> frame_except {} h h1"
  by (auto simp: check_value_def Let_def split: if_splits prod.splits dest: transformed_frame)

lemma validate_frames:
  "validateConfig schema h config = Inr (h', res)
     \<Longrightarrow> frame_except {} h h' \<and> validated res = VRef (length h) \<and> length h < length h'
         \<and> fields_of h' (VRef (length h)) \<noteq> None \<and> isValid res = (errors res = [])"
  "validate_entries schema h errs config r = Inr (h', errs')
     \<Longrightarrow> frame_except {r} h h' \<and> (\<exists>es. errs' = errs @ es)
         \<and> (r < length h \<longrightarrow> fields_of h (VRef r) \<noteq> None \<longrightarrow> fields_of h' (VRef r) \<noteq> None)"
  "validateValue rule h errs value key pth = Inr (h', errs', out)
     \<Longrightarrow> frame_except {} h h' \<and> (\<exists>es. errs' = errs @ es)"
proof (induction schema h config and schema h errs config r and rule h errs "value" key pth
    arbitrary: h' res and h' errs' and h' errs' out
    rule: validateConfig_validate_entries_validateValue.induct)
  case (1 schema h config)
  from "1.prems" obtain errs where
    e: "validate_entries schema (h @ [CObj (spread1 h config)]) [] config (length h) = Inr (h', errs)"
    and res: "res = \<lparr>isValid = (length errs = 0), errors = errs, validated = VRef (length h)\<rparr>"
    by (auto simp: alloc_def split: sum.splits)
  have ih: "frame_except {length h} (h @ [CObj (spread1 h config)]) h'
      \<and> fields_of h' (VRef (length h)) \<noteq> None"
    using "1.IH"[of "(h @ [CObj (spread1 h config)], length h)" "h @ [CObj (spread1 h config)]"
        "length h" h' errs] e
    by (simp add: alloc_def)
  then have "frame_except {} h h'" using frame_except_alloc by blast
  moreover have "length h < length h'" using ih by (simp add: frame_except_def)
  ultimately show ?case using res ih by simp
next
  case (2 h errs config r)
  then show ?case by simp
next
  case (3 key rule rest h errs config r)
  from "3.prems" obtain "value" h1 errs1 outcome where
    rd: "read_prop h config key = Inr value"
    and vv: "validateValue rule h errs value key key = Inr (h1, errs1, outcome)"
    and rest: "validate_entries rest (put_prop h1 r key outcome) errs1 config r = Inr (h', errs')"
    by (auto split: sum.splits)
  have a: "frame_except {} h h1" "\<exists>es. errs1 = errs @ es"
    using "3.IH"(1)[OF rd vv] by simp_all
  have b: "frame_except {r} (put_prop h1 r key outcome) h'" "\<exists>es. errs' = errs1 @ es"
    "r < length (put_prop h1 r key outcome) \<longrightarrow> fields_of (put_prop h1 r key outcome) (VRef r) \<noteq> None
       \<longrightarrow> fields_of h' (VRef r) \<noteq> None"
    using "3.IH"(2)[OF rd vv _ _ rest] by simp_all
  have "frame_except {r} h h1" using a(1) by (rule frame_except_mono) simp
  then have "frame_except {r} h (put_prop h1 r key outcome)"
    by (rule frame_except_put_prop')
  then have f: "frame_except {r} h h'" using b(1) by (rule frame_except_trans)
  have "fields_of h' (VRef r) \<noteq> None" if lr: "r < length h" and fr: "fields_of h (VRef r) \<noteq> None"
  proof -
    obtain kvs where "fields_of h (VRef r) = Some kvs" using fr by blast
    then have "fields_of h1 (VRef r) = Some kvs"
      using fields_of_frame[OF a(1) lr] by simp
    moreover have "r < length h1" using a(1) lr by (simp add: frame_except_def)
    ultimately show ?thesis using b(3) by (simp add: fields_put_prop)
  qed
  then show ?case using f a(2) b(2) by auto
next
  case (4 ty req dflt vld tr ch h errs "value" key pth)
  show ?case
  proof (cases "check_value (Rule ty req dflt vld tr ch) h errs value pth")
    case (Inl d)
    then show ?thesis using "4.prems" check_value_frame(1)[of "Rule ty req dflt vld tr ch" h errs "value" pth]
      by (cases d) auto
  next
    case (Inr c)
    obtain h1 value1 where c: "c = (h1, value1)" by (cases c)
    have f1: "frame_except {} h h1" using check_value_frame(2) Inr c by blast
    show ?thesis
    proof (cases "\<exists>cs. ch = Some cs \<and> typeof value1 = ''object'' \<and> \<not> isArray h1 value1")
      case False
      then have "h' = h1 \<and> errs' = errs" using "4.prems" Inr c by (auto split: option.splits)
      then show ?thesis using f1 by simp
    next
      case True
      then obtain cs where cs: "ch = Some cs" "typeof value1 = ''object'' \<and> \<not> isArray h1 value1"
        by blast
      from "4.prems" Inr c cs obtain childResult where
        vc: "validateConfig cs h1 value1 = Inr (h', childResult)"
        and e: "errs' = errs @ map (\<lambda>err. pth @ ''.'' @ err) (errors childResult)"
        by (auto split: sum.splits)
      have "frame_except {} h1 h'"
        using "4.IH"[OF Inr c[symmetric] cs(1) cs(2) vc] by simp
      then show ?thesis using f1 e frame_except_trans by blast
    qed
  qed
qed

lemma validate_entries_append:
  "validate_entries (xs @ ys) h errs config r =
     (case validate_entries xs h errs config r of
        Inl e \<Rightarrow> Inl e
      | Inr (h1, e1) \<Rightarrow> validate_entries ys h1 e1 config r)"
  by (induction xs arbitrary: h errs) (auto split: sum.splits)

lemma validate_entries_Cons_Inr:
  assumes "validate_entries ((key, rule) # rest) h errs config r = Inr (h', errs')"
  shows "\<exists>value h1 errs1 outcome. read_prop h config key = Inr value
           \<and> validateValue rule h errs value key key = Inr (h1, errs1, outcome)
           \<and> validate_entries rest (put_prop h1 r key outcome) errs1 config r = Inr (h', errs')"
  using assms by (auto split: sum.splits)

lemma validate_entries_fields:
  "validate_entries schema h errs config r = Inr (h', errs') \<Longrightarrow> r < length h
     \<Longrightarrow> fields_of h (VRef r) = Some kvs
     \<Longrightarrow> \<exists>kvs'. fields_of h' (VRef r) = Some kvs'
           \<and> (\<forall>k. k \<notin> fst ` set schema \<longrightarrow> map_of kvs' k = map_of kvs k)"
proof (induction schema arbitrary: h errs kvs)
  case Nil
  then show ?case by simp
next
  case (Cons e schema)
  obtain key rule where e: "e = (key, rule)" by (cases e)
  from validate_entries_Cons_Inr[OF Cons.prems(1)[unfolded e]]
  obtain "value" h1 errs1 outcome where
    vv: "validateValue rule h errs value key key = Inr (h1, errs1, outcome)"
    and rest: "validate_entries schema (put_prop h1 r key outcome) errs1 config r = Inr (h', errs')"
    by blast
  have f1: "frame_except {} h h1" using validate_frames(3)[OF vv] by simp
  have l1: "r < length h1" using f1 Cons.prems(2) by (simp add: frame_except_def)
  have k1: "fields_of h1 (VRef r) = Some kvs"
    using fields_of_frame[OF f1 Cons.prems(2)] Cons.prems(3) by simp
  have "fields_of (put_prop h1 r key outcome) (VRef r) = Some (set_field kvs key outcome)"
    by (rule fields_put_prop[OF l1 k1])
  from Cons.IH[OF rest _ this] l1
  obtain kvs' where "fields_of h' (VRef r) = Some kvs'"
    "\<forall>k. k \<notin> fst ` set schema \<longrightarrow> map_of kvs' k = map_of (set_field kvs key outcome) k"
    by auto
  then show ?case using e by (auto simp: map_of_set_field)
qed

lemma read_prop_document: "is_document h v \<Longrightarrow> read_prop h v k = Inr (get_prop h v k)"
  by (auto simp: is_document_def read_prop_def fields_of_def)

lemma validateConfig_Inr:
  assumes "validateConfig schema h config = Inr (h', res)"
  shows "validate_entries schema (h @ [CObj (spread1 h config)]) [] config (length h)
           = Inr (h', errors res)
         \<and> validated res = VRef (length h) \<and> isValid res = (errors res = [])"
  using assms by (auto simp: alloc_def split: sum.splits)

lemma validateConfig_at_key:
  assumes run: "validateConfig (pre @ (k, r) # post) h config = Inr (h', res)"
    and later: "k \<notin> fst ` set post"
    and doc: "is_document h config"
  shows "\<exists>hk ek h2 e2 out es.
      validate_entries pre (h @ [CObj (spread1 h config)]) [] config (length h) = Inr (hk, ek)
      \<and> validateValue r hk ek (get_prop h config k) k k = Inr (h2, e2, out)
      \<and> validate_entries post (put_prop h2 (length h) k out) e2 config (length h)
            = Inr (h', errors res)
      \<and> get_prop h' (validated res) k = out \<and> errors res = e2 @ es"
proof -
  let ?h0 = "h @ [CObj (spread1 h config)]" and ?r0 = "length h"
  note vr = validateConfig_Inr[OF run]
  obtain hk ek where pre: "validate_entries pre ?h0 [] config ?r0 = Inr (hk, ek)"
    and kp: "validate_entries ((k, r) # post) hk ek config ?r0 = Inr (h', errors res)"
    using vr unfolding validate_entries_append by (auto split: sum.splits)
  from validate_entries_Cons_Inr[OF kp]
  obtain "value" h2 e2 out where rd: "read_prop hk config k = Inr value"
    and vv: "validateValue r hk ek value k k = Inr (h2, e2, out)"
    and post: "validate_entries post (put_prop h2 ?r0 k out) e2 config ?r0 = Inr (h', errors res)"
    by blast
  obtain ca where ca: "config = VRef ca" "ca < length h"
    using doc by (cases config) (auto simp: is_document_def in_store_def fields_of_def)
  have fpre: "frame_except {?r0} ?h0 hk" and kpre: "fields_of hk (VRef ?r0) \<noteq> None"
    using validate_frames(2)[OF pre] by simp_all
  have "get_prop hk config k = get_prop ?h0 config k"
    using get_prop_frame[OF fpre, of ca k] ca by simp
  also have "\<dots> = get_prop h config k"
    using ca by (simp add: get_prop_def fields_of_alloc_old)
  finally have gk: "get_prop hk config k = get_prop h config k" .
  have "is_document hk config"
    using fpre ca doc fields_of_frame[OF fpre, of ca]
    by (auto simp: is_document_def in_store_def frame_except_def fields_of_alloc_old)
  then have val: "value = get_prop h config k"
    using rd gk by (simp add: read_prop_document)
  have f2: "frame_except {} hk h2" and e2: "\<exists>es. e2 = ek @ es"
    using validate_frames(3)[OF vv] by simp_all
  have lk: "?r0 < length hk" using fpre by (simp add: frame_except_def)
  then have l2: "?r0 < length h2" using f2 by (simp add: frame_except_def)
  obtain kvs2 where k2: "fields_of h2 (VRef ?r0) = Some kvs2"
    using kpre fields_of_frame[OF f2 lk] by auto
  have kp2: "fields_of (put_prop h2 ?r0 k out) (VRef ?r0) = Some (set_field kvs2 k out)"
    by (rule fields_put_prop[OF l2 k2])
  from validate_entries_fields[OF post _ kp2] l2 later
  obtain kvs' where "fields_of h' (VRef ?r0) = Some kvs'" "map_of kvs' k = Some out"
    by (auto simp: map_of_set_field)
  then have out: "get_prop h' (validated res) k = out"
    using vr by (simp add: get_prop_def lookup_def)
  have "\<exists>es. errors res = e2 @ es" using validate_frames(2)[OF post] by simp
  then show ?thesis using pre vv post out val by blast
qed

lemma validateValue_eq:
  "validateValue rule h errs value key pth =
     (case check_value rule h errs value pth of
        Inl done \<Rightarrow> Inr done
      | Inr (h1, value1) \<Rightarrow>
          (case r_children rule of
             None \<Rightarrow> Inr (h1, errs, value1)
           | Some cs \<Rightarrow>
               if typeof value1 = ''object'' \<and> \<not> isArray h1 value1
               then
                 (case validateConfig cs h1 value1 of
                    Inl e \<Rightarrow> Inl e
                  | Inr (h2, childResult) \<Rightarrow>
                      Inr (h2,
                           errs @ map (\<lambda>err. pth @ ''.'' @ err) (errors childResult),
                           validated childResult))
               else Inr (h1, errs, value1)))"
  by (cases rule) (simp del: validateConfig.simps cong: sum.case_cong)

lemma check_value_missing:
  assumes "value = VUndefined \<or> (r_required rule \<and> value = VNull)"
  shows "check_value rule h errs value pth =
           Inl (h, errs @ (if r_required rule then [pth @ '' is required''] else []), r_default rule)"
  using assms by (auto simp: check_value_def)

lemma check_value_type_mismatch:
  assumes "value \<noteq> VUndefined" and "\<not> (r_required rule \<and> value = VNull)"
    and "r_type rule = Some ty" and "ty \<noteq> []"
    and "transformed rule h value = (h1, value1)" and "actualType h1 value1 \<noteq> ty"
  shows "check_value rule h errs value pth =
           Inl (h1, errs @ [pth @ '' should be '' @ ty @ '', got '' @ actualType h1 value1],
                r_default rule)"
  using assms by (auto simp: check_value_def truthy_str_def)

lemmas run_simps =
  alloc_def spread1_def fields_of_def cell_at_def read_prop_def get_prop_def lookup_def
  inherited_def object_prototype_methods_def check_value_def transformed_def truthy_str_def actualType_def isArray_def put_prop_def Let_def
  config_store_def eval_nat_numeral

lemma run_database:
  "validateConfig database_schema config_store (VRef 1)
     = Inr ([CObj [(''host'', VStr ''db'')],
             CObj [(''database'', VRef 0), (''extra'', VNum 5), (''n'', VNull)],
             CObj [(''database'', VRef 3), (''extra'', VNum 5), (''n'', VNull)],
             CObj [(''host'', VStr ''db''), (''port'', VUndefined)]],
            \<lparr>isValid = False, errors = [''database.port is required''], validated = VRef 2\<rparr>)"
  by (simp add: run_simps database_schema_def)

lemma run_defaults:
  "validateConfig defaults_schema [CObj []] (VRef 0)
     = Inr ([CObj [], CObj [(''host'', VStr ''localhost''), (''port'', VUndefined)]],
            \<lparr>isValid = False, errors = [''port is required''], validated = VRef 1\<rparr>)"
  by (simp add: run_simps defaults_schema_def)

section \<open>The validation engine: the claims\<close>

text \<open>
  The claims below are about the result validation returns. It does not always return: a
  value that is \<^verbatim>\<open>null\<close> passes \<^verbatim>\<open>typeof value === 'object'\<close>, so a rule with children that
  is not required sends it to the nested call, where \<^verbatim>\<open>config[key]\<close> throws.
\<close>

lemma validateConfig_null_children:
  "validateConfig
       [(''n'', Rule None False VUndefined None None
                  (Some [(''x'', Rule None False VUndefined None None None)]))]
       config_store (VRef 1)
     = Inl (TypeError ''Cannot read properties of null'')"
  by (simp add: run_simps)

text \<open>
  Missing values where \<^verbatim>\<open>config[k]\<close> evaluates to \<^verbatim>\<open>undefined\<close> or \<^verbatim>\<open>null\<close>. Let \<open>k\<close> be a
  schema key with rule \<open>r\<close> (the schema is \<open>pre\<close>, then \<open>k\<close>, then \<open>post\<close>, where no later entry
  names \<open>k\<close>), and let \<^verbatim>\<open>config[k]\<close> be \<^verbatim>\<open>undefined\<close>, or \<^verbatim>\<open>null\<close> with \<open>r\<close> required. When
  validation returns, with \<open>hk\<close> and \<open>ek\<close> the store and the errors at the moment the loop
  reaches \<open>k\<close>: \<^verbatim>\<open>validated[k]\<close> is \<^verbatim>\<open>r.default\<close> (absent when there is no default); if \<open>r\<close> is
  required the error \<^verbatim>\<open>"k is required"\<close> comes next in the error list, and otherwise no error
  is added for \<open>k\<close>; and the loop goes on to the later entries from the store \<open>hk\<close> with only
  \<^verbatim>\<open>validated[k]\<close> set, so no transform, type check, validator or nested validation ran for
  \<open>k\<close>.
\<close>

lemma validateConfig_missing_value:
  assumes "validateConfig (pre @ (k, r) # post) h config = Inr (h', res)"
    and "k \<notin> fst ` set post" and "is_document h config"
    and "get_prop h config k = VUndefined \<or> (r_required r \<and> get_prop h config k = VNull)"
  shows "\<exists>hk ek es.
      validate_entries pre (h @ [CObj (spread1 h config)]) [] config (length h) = Inr (hk, ek)
      \<and> validate_entries post (put_prop hk (length h) k (r_default r))
            (ek @ (if r_required r then [k @ '' is required''] else [])) config (length h)
          = Inr (h', errors res)
      \<and> get_prop h' (validated res) k = r_default r
      \<and> errors res = ek @ (if r_required r then [k @ '' is required''] else []) @ es"
proof -
  from validateConfig_at_key[OF assms(1-3)]
  obtain hk ek h2 e2 out es where
    pre: "validate_entries pre (h @ [CObj (spread1 h config)]) [] config (length h) = Inr (hk, ek)"
    and vv: "validateValue r hk ek (get_prop h config k) k k = Inr (h2, e2, out)"
    and post: "validate_entries post (put_prop h2 (length h) k out) e2 config (length h)
            = Inr (h', errors res)"
    and out: "get_prop h' (validated res) k = out" and es: "errors res = e2 @ es"
    by blast
  have "validateValue r hk ek (get_prop h config k) k k
      = Inr (hk, ek @ (if r_required r then [k @ '' is required''] else []), r_default r)"
    by (simp only: validateValue_eq check_value_missing[OF assms(4)] sum.case)
  then have "h2 = hk" "e2 = ek @ (if r_required r then [k @ '' is required''] else [])"
    "out = r_default r"
    using vv by simp_all
  then show ?thesis using pre post out es by auto
qed

text \<open>
  C4 fails on the code. The claim is for every schema key, and a key the configuration does
  not have is absent; but \<^verbatim>\<open>validateValue(config[key], key, rule)\<close> reads the key through the
  prototype of \<^verbatim>\<open>config\<close>, so for a key that names a property of \<^verbatim>\<open>Object.prototype\<close> the value
  is the inherited function, which is neither \<^verbatim>\<open>undefined\<close> nor \<^verbatim>\<open>null\<close>. With the empty
  configuration \<^verbatim>\<open>{}\<close> and the schema \<^verbatim>\<open>{constructor: {required: true}}\<close>, validation returns
  \<^verbatim>\<open>isValid: true\<close> with no error, and \<^verbatim>\<open>validated.constructor\<close> is the function \<^verbatim>\<open>Object\<close>, not
  the rule's (absent) default; with \<^verbatim>\<open>{constructor: {default: 'd'}}\<close>, the default is not
  filled in either.
\<close>

theorem C4_inherited_value_not_missing:
  "validateConfig [(''constructor'', Rule None True VUndefined None None None)] [CObj []] (VRef 0)
     = Inr ([CObj [], CObj [(''constructor'', VNativeFun ''constructor'')]],
            \<lparr>isValid = True, errors = [], validated = VRef 1\<rparr>)
   \<and> fields_of [CObj []] (VRef 0) = Some []
   \<and> validateConfig [(''constructor'', Rule None False (VStr ''d'') None None None)] [CObj []]
         (VRef 0)
       = Inr ([CObj [], CObj [(''constructor'', VNativeFun ''constructor'')]],
              \<lparr>isValid = True, errors = [], validated = VRef 1\<rparr>)"
  by (simp add: run_simps)

text \<open>
  C5, as stated, fails: it speaks of every schema key with a declared type. For a required
  key of type \<^verbatim>\<open>string\<close> whose value is \<^verbatim>\<open>null\<close> (actual type \<^verbatim>\<open>object\<close>) the only error is
  \<^verbatim>\<open>"n is required"\<close>; for an optional key of type \<^verbatim>\<open>number\<close> that is absent there is no error
  at all. The required and default steps return before any type is computed.
\<close>

theorem C5_type_check_counterexample:
  "validateConfig [(''n'', Rule (Some ''string'') True VUndefined None None None)]
       config_store (VRef 1)
     = Inr (config_store @ [CObj [(''database'', VRef 0), (''extra'', VNum 5), (''n'', VUndefined)]],
            \<lparr>isValid = False, errors = [''n is required''], validated = VRef 2\<rparr>)
   \<and> get_prop config_store (VRef 1) ''n'' = VNull
   \<and> actualType config_store VNull = ''object''
   \<and> validateConfig [(''port'', Rule (Some ''number'') False VUndefined None None None)]
         config_store (VRef 1)
       = Inr (config_store
                @ [CObj [(''database'', VRef 0), (''extra'', VNum 5), (''n'', VNull),
                         (''port'', VUndefined)]],
              \<lparr>isValid = True, errors = [], validated = VRef 2\<rparr>)"
  by (simp add: run_simps)

text \<open>
  C5, amended: for a schema key \<open>k\<close> with a declared type \<open>ty\<close> whose value is present (the
  configuration has the key, its value is not \<^verbatim>\<open>undefined\<close>, and not \<^verbatim>\<open>null\<close> when the key is
  required), the actual type is computed on the transformed value, a sequence counts as
  \<^verbatim>\<open>array\<close>, and on a mismatch the error \<^verbatim>\<open>"k should be ty, got actual"\<close> comes next in the
  error list, \<^verbatim>\<open>validated[k]\<close> is \<^verbatim>\<open>r.default\<close>, and the loop goes on to the later entries from
  the store the transform left: no validator and no nested validation ran for \<open>k\<close>.
\<close>

theorem C5_type_mismatch:
  assumes "validateConfig (pre @ (k, r) # post) h config = Inr (h', res)"
    and "k \<notin> fst ` set post" and "is_document h config"
    and "own_prop h config k \<noteq> VUndefined"
    and "\<not> (r_required r \<and> own_prop h config k = VNull)"
    and "r_type r = Some ty" and "ty \<noteq> []"
  shows "\<exists>hk ek h1 value1.
      validate_entries pre (h @ [CObj (spread1 h config)]) [] config (length h) = Inr (hk, ek)
      \<and> transformed r hk (own_prop h config k) = (h1, value1)
      \<and> (isArray h1 value1 \<longrightarrow> actualType h1 value1 = ''array'')
      \<and> (actualType h1 value1 \<noteq> ty \<longrightarrow>
           (\<exists>es. validate_entries post (put_prop h1 (length h) k (r_default r))
                    (ek @ [k @ '' should be '' @ ty @ '', got '' @ actualType h1 value1])
                    config (length h)
                  = Inr (h', errors res)
                \<and> get_prop h' (validated res) k = r_default r
                \<and> errors res
                    = ek @ [k @ '' should be '' @ ty @ '', got '' @ actualType h1 value1] @ es))"
proof -
  have own: "get_prop h config k = own_prop h config k"
    by (rule own_prop_get_prop[OF assms(4)])
  from validateConfig_at_key[OF assms(1-3)]
  obtain hk ek h2 e2 out es where
    pre: "validate_entries pre (h @ [CObj (spread1 h config)]) [] config (length h) = Inr (hk, ek)"
    and vv: "validateValue r hk ek (own_prop h config k) k k = Inr (h2, e2, out)"
    and post: "validate_entries post (put_prop h2 (length h) k out) e2 config (length h)
            = Inr (h', errors res)"
    and out: "get_prop h' (validated res) k = out" and es: "errors res = e2 @ es"
    unfolding own by blast
  obtain h1 value1 where tr: "transformed r hk (own_prop h config k) = (h1, value1)"
    by (cases "transformed r hk (own_prop h config k)")
  have arr: "isArray h1 value1 \<longrightarrow> actualType h1 value1 = ''array''"
    by (simp add: actualType_def)
  have "\<exists>es. validate_entries post (put_prop h1 (length h) k (r_default r))
                    (ek @ [k @ '' should be '' @ ty @ '', got '' @ actualType h1 value1])
                    config (length h)
                  = Inr (h', errors res)
                \<and> get_prop h' (validated res) k = r_default r
                \<and> errors res
                    = ek @ [k @ '' should be '' @ ty @ '', got '' @ actualType h1 value1] @ es"
    if mis: "actualType h1 value1 \<noteq> ty"
  proof -
    have "validateValue r hk ek (own_prop h config k) k k
      = Inr (h1, ek @ [k @ '' should be '' @ ty @ '', got '' @ actualType h1 value1], r_default r)"
      by (simp only: validateValue_eq check_value_type_mismatch[OF assms(4-7) tr mis] sum.case)
    then have "h2 = h1" "e2 = ek @ [k @ '' should be '' @ ty @ '', got '' @ actualType h1 value1]"
      "out = r_default r"
      using vv by simp_all
    then show ?thesis using post out es by auto
  qed
  then show ?thesis using pre tr arr by blast
qed

theorem C5_type_mismatch_witness:
  "\<exists>h' res. validateConfig [(''port'', Rule (Some ''number'') False VUndefined None None None)]
               [CObj [(''port'', VStr ''abc'')]] (VRef 0) = Inr (h', res)
     \<and> get_prop h' (validated res) ''port'' = VUndefined
     \<and> errors res = [''port should be number, got string'']"
proof -
  let ?port = "Rule (Some ''number'') False VUndefined None None None"
  let ?h = "[CObj [(''port'', VStr ''abc'')]]"
  have "validateConfig [(''port'', ?port)] ?h (VRef 0)
     = Inr ([CObj [(''port'', VStr ''abc'')], CObj [(''port'', VUndefined)]],
            \<lparr>isValid = False, errors = [''port should be number, got string''],
               validated = VRef 1\<rparr>)"
    by (simp add: run_simps)
  then obtain h' res where run: "validateConfig [(''port'', ?port)] ?h (VRef 0) = Inr (h', res)"
    and e: "errors res = [''port should be number, got string'']"
    by simp
  have doc: "is_document ?h (VRef 0)"
    by (simp add: is_document_def in_store_def fields_of_def cell_at_def)
  have v: "own_prop ?h (VRef 0) ''port'' = VStr ''abc''"
    by (simp add: own_prop_def fields_of_def cell_at_def)
  have "get_prop h' (validated res) ''port'' = VUndefined"
    using C5_type_mismatch [of "[]" "''port''" ?port "[]" ?h "VRef 0" h' res "''number''"]
      run doc v
    by (auto simp: transformed_def actualType_def isArray_def)
  then show ?thesis using run e by blast
qed

text \<open>
  C6, as stated, fails: it speaks of every schema key whose rule has children and whose
  value is a mapping. With a rule of type \<^verbatim>\<open>string\<close> that has children, a \<^verbatim>\<open>database\<close> value
  that is a mapping gives the type error alone, \<^verbatim>\<open>validated.database\<close> is the (absent)
  default, and the required child \<^verbatim>\<open>port\<close> is never looked at.
\<close>

theorem C6_children_counterexample:
  "validateConfig
       [(''database'',
         Rule (Some ''string'') False VUndefined None None
           (Some [(''port'', Rule None True VUndefined None None None)]))]
       config_store (VRef 1)
     = Inr (config_store
              @ [CObj [(''database'', VUndefined), (''extra'', VNum 5), (''n'', VNull)]],
            \<lparr>isValid = False, errors = [''database should be string, got object''],
               validated = VRef 2\<rparr>)
   \<and> fields_of config_store (get_prop config_store (VRef 1) ''database'')
       = Some [(''host'', VStr ''db'')]"
  by (simp add: run_simps)

text \<open>
  C6, amended: for a schema key \<open>k\<close> whose rule has children, if the value passes the required,
  type and validator checks and (after the transform) is a mapping, then the value is
  validated against the children schema, every nested error comes next in the error list
  with the prefix \<^verbatim>\<open>"k."\<close>, and \<^verbatim>\<open>validated[k]\<close> is the nested validated document.
\<close>

theorem C6_children:
  assumes "validateConfig (pre @ (k, r) # post) h config = Inr (h', res)"
    and "k \<notin> fst ` set post" and "is_document h config"
    and "r_children r = Some cs"
  shows "\<exists>hk ek.
      validate_entries pre (h @ [CObj (spread1 h config)]) [] config (length h) = Inr (hk, ek)
      \<and> (\<forall>h1 value1.
            check_value r hk ek (get_prop h config k) k = Inr (h1, value1)
              \<longrightarrow> fields_of h1 value1 \<noteq> None
              \<longrightarrow> (\<exists>h2 cres es.
                     validateConfig cs h1 value1 = Inr (h2, cres)
                     \<and> get_prop h' (validated res) k = validated cres
                     \<and> errors res = ek @ map (\<lambda>err. k @ ''.'' @ err) (errors cres) @ es))"
proof -
  from validateConfig_at_key[OF assms(1-3)]
  obtain hk ek h2 e2 out es where
    pre: "validate_entries pre (h @ [CObj (spread1 h config)]) [] config (length h) = Inr (hk, ek)"
    and vv: "validateValue r hk ek (get_prop h config k) k k = Inr (h2, e2, out)"
    and out: "get_prop h' (validated res) k = out" and es: "errors res = e2 @ es"
    by blast
  have "\<exists>h2 cres es.
          validateConfig cs h1 value1 = Inr (h2, cres)
          \<and> get_prop h' (validated res) k = validated cres
          \<and> errors res = ek @ map (\<lambda>err. k @ ''.'' @ err) (errors cres) @ es"
    if cv: "check_value r hk ek (get_prop h config k) k = Inr (h1, value1)"
      and m: "fields_of h1 value1 \<noteq> None" for h1 value1
  proof -
    have obj: "typeof value1 = ''object'' \<and> \<not> isArray h1 value1"
      using m by (cases value1) (auto simp: fields_of_def isArray_def split: cell.splits)
    have eq: "validateValue r hk ek (get_prop h config k) k k
        = (case validateConfig cs h1 value1 of
             Inl e \<Rightarrow> Inl e
           | Inr (h2, childResult) \<Rightarrow>
               Inr (h2, ek @ map (\<lambda>err. k @ ''.'' @ err) (errors childResult),
                    validated childResult))"
      using obj by (simp add: validateValue_eq cv assms(4) del: validateConfig.simps)
    then obtain hc cres where c: "validateConfig cs h1 value1 = Inr (hc, cres)"
      using vv by (cases "validateConfig cs h1 value1") auto
    then have "e2 = ek @ map (\<lambda>err. k @ ''.'' @ err) (errors cres)" "out = validated cres"
      using vv eq by simp_all
    then show ?thesis using c out es by auto
  qed
  then show ?thesis using pre by blast
qed

theorem C6_children_witness:
  "\<exists>h' res. validateConfig database_schema config_store (VRef 1) = Inr (h', res)
     \<and> get_prop h' (validated res) ''database'' = VRef 3
     \<and> fields_of h' (VRef 3) = Some [(''host'', VStr ''db''), (''port'', VUndefined)]
     \<and> errors res = [''database.port is required'']"
proof -
  let ?port = "Rule (Some ''number'') True VUndefined None None None"
  let ?db = "Rule (Some ''object'') True VUndefined None None (Some [(''port'', ?port)])"
  let ?h0 = "config_store @ [CObj [(''database'', VRef 0), (''extra'', VNum 5), (''n'', VNull)]]"
  obtain h' res where run: "validateConfig database_schema config_store (VRef 1) = Inr (h', res)"
    and e: "errors res = [''database.port is required'']"
    and f: "fields_of h' (VRef 3) = Some [(''host'', VStr ''db''), (''port'', VUndefined)]"
    using run_database by (simp add: fields_of_def cell_at_def)
  have doc: "is_document config_store (VRef 1)"
    by (simp add: is_document_def in_store_def fields_of_def cell_at_def config_store_def)
  have cv: "check_value ?db ?h0 [] (get_prop config_store (VRef 1) ''database'') ''database''
      = Inr (?h0, VRef 0)"
    by (simp add: run_simps)
  have ch: "validateConfig [(''port'', ?port)] ?h0 (VRef 0)
      = Inr (?h0 @ [CObj [(''host'', VStr ''db''), (''port'', VUndefined)]],
             \<lparr>isValid = False, errors = [''port is required''], validated = VRef 3\<rparr>)"
    by (simp add: run_simps)
  from C6_children [of "[]" "''database''" ?db "[]" config_store "VRef 1" h' res "[(''port'', ?port)]"]
    run doc
  have "\<forall>h1 value1.
      check_value ?db ?h0 [] (get_prop config_store (VRef 1) ''database'') ''database''
        = Inr (h1, value1)
      \<longrightarrow> fields_of h1 value1 \<noteq> None
      \<longrightarrow> (\<exists>h2 cres es.
             validateConfig [(''port'', ?port)] h1 value1 = Inr (h2, cres)
             \<and> get_prop h' (validated res) ''database'' = validated cres
             \<and> errors res = map (\<lambda>err. ''database'' @ ''.'' @ err) (errors cres) @ es)"
    by (simp add: database_schema_def spread1_def fields_of_def cell_at_def config_store_def
        del: validateConfig.simps)
  from this[rule_format, OF cv] ch
  have "get_prop h' (validated res) ''database'' = VRef 3"
    by (simp add: fields_of_def cell_at_def config_store_def del: validateConfig.simps)
  then show ?thesis using run e f by blast
qed

text \<open>
  C7. When validation of a document returns, the validated document has, at every key the
  schema does not name, exactly what the configuration has there (the same value, or
  nothing); no existing object was changed; and \<^verbatim>\<open>isValid\<close> holds exactly when the error list
  is empty.
\<close>

theorem C7_unknown_keys_pass_through:
  assumes "validateConfig schema h config = Inr (h', res)"
    and "fields_of h config = Some cf"
  shows "\<exists>vf. fields_of h' (validated res) = Some vf
           \<and> (\<forall>k. k \<notin> fst ` set schema \<longrightarrow> map_of vf k = map_of cf k)
           \<and> take (length h) h' = h
           \<and> isValid res = (errors res = [])"
proof -
  note vr = validateConfig_Inr[OF assms(1)]
  have sp: "spread1 h config = cf" using assms(2) by (simp add: spread1_def)
  have "fields_of (h @ [CObj cf]) (VRef (length h)) = Some cf" by simp
  from validate_entries_fields[OF vr[THEN conjunct1, unfolded sp] _ this]
  obtain vf where "fields_of h' (VRef (length h)) = Some vf"
    "\<forall>k. k \<notin> fst ` set schema \<longrightarrow> map_of vf k = map_of cf k"
    by auto
  moreover have "take (length h) h' = h"
    using validate_frames(1)[OF assms(1)] by (simp add: frame_except_prefix)
  ultimately show ?thesis using vr by auto
qed

theorem C7_unknown_keys_pass_through_witness:
  "\<exists>h' res vf. validateConfig database_schema config_store (VRef 1) = Inr (h', res)
     \<and> fields_of h' (validated res) = Some vf
     \<and> map_of vf ''extra'' = Some (VNum 5) \<and> map_of vf ''n'' = Some VNull
     \<and> map_of vf ''absent'' = None
     \<and> isValid res = False"
proof -
  obtain h' res where run: "validateConfig database_schema config_store (VRef 1) = Inr (h', res)"
    and e: "errors res = [''database.port is required'']"
    using run_database by simp
  have f: "fields_of config_store (VRef 1)
      = Some [(''database'', VRef 0), (''extra'', VNum 5), (''n'', VNull)]"
    by (simp add: fields_of_def cell_at_def config_store_def)
  from C7_unknown_keys_pass_through[OF run f]
  obtain vf where "fields_of h' (validated res) = Some vf"
    "\<forall>k. k \<notin> fst ` set database_schema
        \<longrightarrow> map_of vf k = map_of [(''database'', VRef 0), (''extra'', VNum 5), (''n'', VNull)] k"
    "isValid res = (errors res = [])"
    by blast
  then have "fields_of h' (validated res) = Some vf \<and> map_of vf ''extra'' = Some (VNum 5)
      \<and> map_of vf ''n'' = Some VNull \<and> map_of vf ''absent'' = None \<and> isValid res = False"
    using e by (simp add: database_schema_def)
  then show ?thesis using run by blast
qed

end
